theory Spec2Isabelle
  imports Complex_Main
begin

section \<open>Data model\<close>

text \<open>
  A shallow embedding of the ACME simulator (\<^verbatim>\<open>src/acme\<close>). Python exceptions are
  values of \<open>error\<close>; a function that can raise returns \<open>error + 'a\<close> with \<open>Inl\<close>
  the exception. \<open>Blocked\<close> stands for a \<^verbatim>\<open>queue.Queue\<close> call that would never return
  (\<^verbatim>\<open>get\<close> on an empty queue). Simulated times and kinematic vectors are Python
  floats; they are modelled as real numbers. The model thus covers the runs of the
  program in which all these floats are finite, and it computes without rounding and
  without overflow. The values \<^verbatim>\<open>inf\<close> and \<^verbatim>\<open>nan\<close>, which \<^verbatim>\<open>step\<close> accepts as \<^verbatim>\<open>deltaT\<close> like any
  other float, have no counterpart here: no theorem of this theory speaks of a run in
  which one of them occurs.
  Platform identifiers (\<open>'i\<close>) and user payloads (\<open>'p\<close>) are opaque in the source
  and are type parameters here; \<^verbatim>\<open>copy.deepcopy\<close> of a payload is the identity on values.
\<close>

datatype error = ValueError | AssertionError | IndexError | TypeError | ZeroDivisionError | Blocked

type_synonym vec3 = "real \<times> real \<times> real"

text \<open>\<^verbatim>\<open>EmissionObj.__init__\<close>: the attributes every emission carries.\<close>

record 'i EmissionObj =
  sourceID :: 'i
  destID :: "'i list"
  time :: real
  emissionTime :: "real option"
  freqBin :: nat
  position :: "vec3 option"

text \<open>
  The three concrete classes. A \<open>Packet\<close> adds \<^verbatim>\<open>payload\<close> and \<^verbatim>\<open>msgID\<close>; an \<open>AckPacket\<close> is a
  \<open>Packet\<close> whose payload is the acknowledged message id; a \<open>DisruptionToken\<close> has the
  header only.
\<close>

datatype ('i, 'p) emission =
    Packet (hdr: "'i EmissionObj") 'p int
  | AckPacket (hdr: "'i EmissionObj") int int
  | DisruptionToken (hdr: "'i EmissionObj")

fun map_hdr :: "('i EmissionObj \<Rightarrow> 'i EmissionObj) \<Rightarrow> ('i, 'p) emission \<Rightarrow> ('i, 'p) emission" where
  "map_hdr f (Packet h x m) = Packet (f h) x m"
| "map_hdr f (AckPacket h a m) = AckPacket (f h) a m"
| "map_hdr f (DisruptionToken h) = DisruptionToken (f h)"

text \<open>\<^verbatim>\<open>sourceType\<close>: 0 for \<open>Packet\<close> and \<open>AckPacket\<close>, 1 for \<open>DisruptionToken\<close>.\<close>

fun sourceType :: "('i, 'p) emission \<Rightarrow> nat" where
  "sourceType (Packet h x m) = 0"
| "sourceType (AckPacket h a m) = 0"
| "sourceType (DisruptionToken h) = 1"

text \<open>\<^verbatim>\<open>isinstance(e, DisruptionToken)\<close> and \<^verbatim>\<open>isinstance(e, AckPacket)\<close>.\<close>

fun isDisruptionToken :: "('i, 'p) emission \<Rightarrow> bool" where
  "isDisruptionToken (DisruptionToken h) = True"
| "isDisruptionToken e = False"

fun isAckPacket :: "('i, 'p) emission \<Rightarrow> bool" where
  "isAckPacket (AckPacket h a m) = True"
| "isAckPacket e = False"

text \<open>The \<^verbatim>\<open>msgID\<close> attribute (absent on a token, where Python would raise).\<close>

fun msgID :: "('i, 'p) emission \<Rightarrow> int option" where
  "msgID (Packet h x m) = Some m"
| "msgID (AckPacket h a m) = Some m"
| "msgID (DisruptionToken h) = None"

subsection \<open>Bounded FIFO queues\<close>

text \<open>
  \<^verbatim>\<open>queue.Queue(maxsize)\<close>: \<^verbatim>\<open>full()\<close> is \<^verbatim>\<open>0 < maxsize <= qsize()\<close>, so a queue with
  \<open>maxsize \<le> 0\<close> is unbounded. \<open>qput\<close> is only called where the source has checked
  \<open>qfull\<close> or knows a slot is free.
\<close>

record 'a Queue =
  maxsize :: int
  items :: "'a list"

definition Queue_new :: "int \<Rightarrow> 'a Queue" where
  "Queue_new n = \<lparr>maxsize = n, items = []\<rparr>"

definition qfull :: "'a Queue \<Rightarrow> bool" where
  "qfull q = (0 < maxsize q \<and> maxsize q \<le> int (length (items q)))"

definition qempty :: "'a Queue \<Rightarrow> bool" where
  "qempty q = (items q = [])"

definition qput :: "'a Queue \<Rightarrow> 'a \<Rightarrow> 'a Queue" where
  "qput q x = q\<lparr>items := items q @ [x]\<rparr>"

definition qget :: "'a Queue \<Rightarrow> error + ('a \<times> 'a Queue)" where
  "qget q = (case items q of [] \<Rightarrow> Inl Blocked | x # xs \<Rightarrow> Inr (x, q\<lparr>items := xs\<rparr>))"

subsection \<open>Platforms\<close>

text \<open>
  \<^verbatim>\<open>Platform\<close> is the base class; \<^verbatim>\<open>CommsPlatform\<close> and \<^verbatim>\<open>DisruptorPlatform\<close> extend it,
  as the record extensions below do. The attribute \<^verbatim>\<open>id\<close> is \<open>platform_id\<close>.
\<close>

record 'i Platform =
  platform_id :: 'i
  pos :: vec3
  vel :: vec3
  acc :: vec3
  elapsedTime :: real
  elapsedTimeSteps :: int

definition vadd :: "vec3 \<Rightarrow> vec3 \<Rightarrow> vec3" where
  "vadd u v = (case u of (a, b, c) \<Rightarrow> case v of (x, y, z) \<Rightarrow> (a + x, b + y, c + z))"

definition vscale :: "real \<Rightarrow> vec3 \<Rightarrow> vec3" where
  "vscale k v = (case v of (x, y, z) \<Rightarrow> (k * x, k * y, k * z))"

text \<open>
  \<^verbatim>\<open>Platform.step\<close>: the matrix \<^verbatim>\<open>[[1, dT, 0.5*dT**2], [0, 1, dT], [0, 0, 1]]\<close> applied to
  \<^verbatim>\<open>[pos, vel, acc]\<close>, then the two counters. It is written over the record scheme, so
  it applies to both subclasses.
\<close>

definition Platform_step :: "real \<Rightarrow> ('i, 'z) Platform_scheme \<Rightarrow> ('i, 'z) Platform_scheme" where
  "Platform_step deltaT p =
     p\<lparr>pos := vadd (pos p) (vadd (vscale deltaT (vel p)) (vscale (0.5 * deltaT\<^sup>2) (acc p))),
       vel := vadd (vel p) (vscale deltaT (acc p)),
       acc := acc p,
       elapsedTime := elapsedTime p + deltaT,
       elapsedTimeSteps := elapsedTimeSteps p + 1\<rparr>"

text \<open>
  \<^verbatim>\<open>CommsPlatform\<close>. \<open>currentMsgID\<close> is the private \<^verbatim>\<open>__currentMsgID\<close>. \<open>warned\<close> counts the
  calls of \<^verbatim>\<open>warnings.warn\<close> the platform has made: the warning is the only trace a
  dropped packet leaves.
\<close>

record ('i, 'p) CommsPlatform = "'i Platform" +
  destIDs :: "'i list"
  txQueue :: "('i, 'p) emission Queue"
  rxQueue :: "'p Queue"
  doAck :: bool
  currentMsgID :: int
  warned :: nat

definition CommsPlatform_init ::
  "'i \<Rightarrow> int \<Rightarrow> bool \<Rightarrow> vec3 \<Rightarrow> vec3 \<Rightarrow> vec3 \<Rightarrow> error + ('i, 'p) CommsPlatform" where
  "CommsPlatform_init theID theMaxSize theDoAck initialPos initialVel initialAcc =
     (if theMaxSize < 1 then Inl ValueError
      else Inr \<lparr>platform_id = theID, pos = initialPos, vel = initialVel, acc = initialAcc,
                elapsedTime = 0, elapsedTimeSteps = 0,
                destIDs = [], txQueue = Queue_new theMaxSize, rxQueue = Queue_new theMaxSize,
                doAck = theDoAck, currentMsgID = 1, warned = 0\<rparr>)"

definition getNextMsgID :: "('i, 'p) CommsPlatform \<Rightarrow> int \<times> ('i, 'p) CommsPlatform" where
  "getNextMsgID p = (currentMsgID p, p\<lparr>currentMsgID := currentMsgID p + 1\<rparr>)"

definition txPacket :: "('i, 'p) CommsPlatform \<Rightarrow> ('i, 'p) emission \<Rightarrow> ('i, 'p) CommsPlatform" where
  "txPacket p thePacket =
     (if qfull (txQueue p) then p\<lparr>warned := warned p + 1\<rparr>
      else p\<lparr>txQueue := qput (txQueue p) thePacket\<rparr>)"

definition txData :: "('i, 'p) CommsPlatform \<Rightarrow> 'p \<Rightarrow> 'i list \<Rightarrow> ('i, 'p) CommsPlatform" where
  "txData p thePayload theDestID =
     (case getNextMsgID p of (theMsgID, p1) \<Rightarrow>
        txPacket p1
          (Packet \<lparr>sourceID = platform_id p, destID = theDestID, time = elapsedTime p,
                   emissionTime = None, freqBin = 0, position = None\<rparr> thePayload theMsgID))"

definition rxData :: "('i, 'p) CommsPlatform \<Rightarrow> 'p option \<times> ('i, 'p) CommsPlatform" where
  "rxData p =
     (case items (rxQueue p) of
        [] \<Rightarrow> (None, p)
      | x # xs \<Rightarrow> (Some x, p\<lparr>rxQueue := (rxQueue p)\<lparr>items := xs\<rparr>\<rparr>))"

definition getData :: "('i, 'p) CommsPlatform \<Rightarrow> ('i, 'p) emission option \<times> ('i, 'p) CommsPlatform" where
  "getData p =
     (case items (txQueue p) of
        [] \<Rightarrow> (None, p)
      | x # xs \<Rightarrow> (Some x, p\<lparr>txQueue := (txQueue p)\<lparr>items := xs\<rparr>\<rparr>))"

text \<open>
  The body of the second loop of \<^verbatim>\<open>putData\<close>, for one element. The loop only runs when
  the batch holds no \<open>DisruptionToken\<close>, so the token case is never reached.
\<close>

fun putData_one :: "('i, 'p) CommsPlatform \<Rightarrow> ('i, 'p) emission \<Rightarrow> ('i, 'p) CommsPlatform" where
  "putData_one p (AckPacket h a m) = p"
| "putData_one p (Packet h x m) =
     (if qfull (rxQueue p) then p\<lparr>warned := warned p + 1\<rparr>
      else
        let p1 = p\<lparr>rxQueue := qput (rxQueue p) x\<rparr> in
        if doAck p1 then
          (case getNextMsgID p1 of (theMsgID, p2) \<Rightarrow>
             txPacket p2
               (AckPacket \<lparr>sourceID = platform_id p2, destID = [sourceID h], time = elapsedTime p2,
                           emissionTime = None, freqBin = 0, position = None\<rparr> m theMsgID))
        else p1)"
| "putData_one p (DisruptionToken h) = p"

definition putData :: "('i, 'p) CommsPlatform \<Rightarrow> ('i, 'p) emission list \<Rightarrow> ('i, 'p) CommsPlatform" where
  "putData p theEmissionList =
     (if list_ex isDisruptionToken theEmissionList then p
      else foldl putData_one p theEmissionList)"

text \<open>The payloads of the plain packets of a batch, in order.\<close>

fun plain_payloads :: "('i, 'p) emission list \<Rightarrow> 'p list" where
  "plain_payloads [] = []"
| "plain_payloads (Packet h x m # es) = x # plain_payloads es"
| "plain_payloads (e # es) = plain_payloads es"

subsection \<open>Closed forms used to state what \<open>putData\<close> does\<close>

text \<open>
  \<open>room q xs\<close> is the prefix of \<open>xs\<close> that still fits into the queue \<open>q\<close> when the
  elements are offered one by one and each is put unless the queue is full.
\<close>

definition room :: "'a Queue \<Rightarrow> 'b list \<Rightarrow> 'b list" where
  "room q xs = (if 0 < maxsize q then take (nat (maxsize q) - length (items q)) xs else xs)"

text \<open>The plain packets of a batch (header, payload, message id), in order.\<close>

fun plain_packets :: "('i, 'p) emission list \<Rightarrow> ('i EmissionObj \<times> 'p \<times> int) list" where
  "plain_packets [] = []"
| "plain_packets (Packet h x m # es) = (h, x, m) # plain_packets es"
| "plain_packets (e # es) = plain_packets es"

text \<open>The packets of a batch whose payload the receive queue of \<open>p\<close> takes.\<close>

definition accepted ::
  "('i, 'p) CommsPlatform \<Rightarrow> ('i, 'p) emission list \<Rightarrow> ('i EmissionObj \<times> 'p \<times> int) list" where
  "accepted p es = room (rxQueue p) (plain_packets es)"

text \<open>
  The acknowledgements platform \<open>p\<close> builds for the packets \<open>r\<close>, with consecutive
  message ids from \<open>k\<close> on.
\<close>

fun acks_for ::
  "('i, 'p) CommsPlatform \<Rightarrow> int \<Rightarrow> ('i EmissionObj \<times> 'p \<times> int) list \<Rightarrow> ('i, 'p) emission list" where
  "acks_for p k [] = []"
| "acks_for p k ((h, x, m) # r) =
     AckPacket \<lparr>sourceID = platform_id p, destID = [sourceID h], time = elapsedTime p,
                 emissionTime = None, freqBin = 0, position = None\<rparr> m k
     # acks_for p (k + 1) r"

text \<open>A platform as the constructor returns it, for concrete runs.\<close>

definition new_platform :: "nat \<Rightarrow> int \<Rightarrow> bool \<Rightarrow> (nat, real) CommsPlatform" where
  "new_platform i n a = projr (CommsPlatform_init i n a (0, 0, 0) (0, 0, 0) (0, 0, 0))"

definition demo_hdr :: "nat \<Rightarrow> nat list \<Rightarrow> nat EmissionObj" where
  "demo_hdr s ds = \<lparr>sourceID = s, destID = ds, time = 0, emissionTime = None, freqBin = 0,
                     position = None\<rparr>"

subsection \<open>Disruptor platforms\<close>

text \<open>
  \<^verbatim>\<open>DisruptorPlatform\<close>. \<open>env\<close> is the platform's view of the environment: \<^verbatim>\<open>None\<close> until
  the environment assigns it, then one row of cells per coordinator and disruptor.
\<close>

type_synonym ('i, 'p) grid = "('i, 'p) emission option list list"

record ('i, 'p) DisruptorPlatform = "'i Platform" +
  numMaxTokens :: int
  numFrequencyBins :: int
  numTimeStepsPerEpoch :: int
  numTokensRemaining :: int
  commsDestIDs :: "'i list"
  env :: "('i, 'p) grid option"

definition DisruptorPlatform_init ::
  "'i \<Rightarrow> int \<Rightarrow> int \<Rightarrow> int \<Rightarrow> vec3 \<Rightarrow> vec3 \<Rightarrow> vec3 \<Rightarrow> error + ('i, 'p) DisruptorPlatform" where
  "DisruptorPlatform_init theID theNumMaxTokens theNumFrequencyBins theNumTimeStepsPerEpoch
       initialPos initialVel initialAcc =
     (if theNumMaxTokens < 0 then Inl ValueError
      else if theNumFrequencyBins < 1 then Inl ValueError
      else if theNumTimeStepsPerEpoch < 1 then Inl ValueError
      else Inr \<lparr>platform_id = theID, pos = initialPos, vel = initialVel, acc = initialAcc,
                elapsedTime = 0, elapsedTimeSteps = 0,
                numMaxTokens = theNumMaxTokens, numFrequencyBins = theNumFrequencyBins,
                numTimeStepsPerEpoch = theNumTimeStepsPerEpoch,
                numTokensRemaining = theNumMaxTokens, commsDestIDs = [], env = None\<rparr>)"

text \<open>
  \<^verbatim>\<open>DisruptorPlatform.step\<close>: the base class step, then the epoch test on the counter the
  base class has just incremented. Python's \<^verbatim>\<open>%\<close> raises on a zero divisor.
\<close>

definition DisruptorPlatform_step ::
  "real \<Rightarrow> ('i, 'p) DisruptorPlatform \<Rightarrow> error + ('i, 'p) DisruptorPlatform" where
  "DisruptorPlatform_step deltaT d =
     (let d1 = Platform_step deltaT d in
      if numTimeStepsPerEpoch d1 = 0 then Inl ZeroDivisionError
      else if elapsedTimeSteps d1 mod numTimeStepsPerEpoch d1 = 0
        then Inr (d1\<lparr>numTokensRemaining := numMaxTokens d1\<rparr>)
        else Inr d1)"

text \<open>
  \<^verbatim>\<open>random.sample(range(B), n)\<close>: it raises \<^verbatim>\<open>ValueError\<close> when \<open>n\<close> is negative or larger
  than the population, and returns \<open>n\<close> distinct indices below \<open>B\<close> otherwise. The
  random source is the parameter \<open>r\<close>. For \<open>n \<le> 1\<close>, which is all \<^verbatim>\<open>getDisruptions\<close> ever
  asks for, every outcome of the library function arises from some \<open>r\<close>.
\<close>

definition random_sample :: "nat \<Rightarrow> int \<Rightarrow> int \<Rightarrow> error + nat list" where
  "random_sample r B n =
     (if n < 0 \<or> B < n then Inl ValueError
      else Inr (map (\<lambda>k. (r + k) mod nat B) [0..<nat n]))"

definition getDisruptions ::
  "('i, 'p) DisruptorPlatform \<Rightarrow> nat \<Rightarrow>
     error + (('i, 'p) emission option list \<times> ('i, 'p) DisruptorPlatform)" where
  "getDisruptions d r =
     (let numTokensToUse0 = min (numTokensRemaining d) 1;
          tokens = replicate (nat (numFrequencyBins d)) None;
          numTokensToUse =
            (if numTokensToUse0 > numFrequencyBins d then numFrequencyBins d else numTokensToUse0)
      in if \<not> numTokensToUse \<le> numTokensRemaining d then Inl AssertionError
         else
           let d1 = d\<lparr>numTokensRemaining := numTokensRemaining d - numTokensToUse\<rparr> in
           case random_sample r (numFrequencyBins d1) numTokensToUse of
             Inl e \<Rightarrow> Inl e
           | Inr index \<Rightarrow>
               Inr (foldl (\<lambda>toks i.
                      toks[i := Some (DisruptionToken
                        \<lparr>sourceID = platform_id d1, destID = commsDestIDs d1,
                         time = elapsedTime d1, emissionTime = None, freqBin = i,
                         position = Some (pos d1)\<rparr>)]) tokens index, d1))"

text \<open>
  A disruptor platform on its own: any sequence of \<^verbatim>\<open>step\<close> and \<^verbatim>\<open>getDisruptions\<close> calls.
\<close>

datatype disruptor_op = DStep real | DGetDisruptions nat

fun disruptor_run ::
  "('i, 'p) DisruptorPlatform \<Rightarrow> disruptor_op list \<Rightarrow> error + ('i, 'p) DisruptorPlatform" where
  "disruptor_run d [] = Inr d"
| "disruptor_run d (DStep deltaT # ops) =
     (case DisruptorPlatform_step deltaT d of Inl e \<Rightarrow> Inl e | Inr d' \<Rightarrow> disruptor_run d' ops)"
| "disruptor_run d (DGetDisruptions r # ops) =
     (case getDisruptions d r of Inl e \<Rightarrow> Inl e | Inr (toks, d') \<Rightarrow> disruptor_run d' ops)"

text \<open>The number of occupied cells of a row of bins.\<close>

definition occupied :: "'a option list \<Rightarrow> nat" where
  "occupied row = length (filter (\<lambda>c. c \<noteq> None) row)"

subsection \<open>The coordinator (medium access control)\<close>

text \<open>\<^verbatim>\<open>list.index\<close>: the first position of an element, \<^verbatim>\<open>ValueError\<close> (here \<open>None\<close>) if absent.\<close>

fun index_of :: "'a list \<Rightarrow> 'a \<Rightarrow> nat option" where
  "index_of [] x = None"
| "index_of (y # ys) x = (if y = x then Some 0 else map_option Suc (index_of ys x))"

text \<open>
  \<^verbatim>\<open>CommsCoordinator\<close>. Its \<^verbatim>\<open>platforms\<close> attribute refers to the very platform objects the
  environment holds, so the platforms are not a field here: every method that touches
  them takes the current platforms and returns them updated. \<open>TDMAindex\<close> is the
  private \<^verbatim>\<open>__TDMAindex\<close>.
\<close>

record 'i CommsCoordinator =
  platformIDs :: "'i list"
  numPlatforms :: nat
  numFrequencyBins_c :: int
  mac :: string
  TDMAindex :: nat

definition CommsCoordinator_init ::
  "('i, 'p) CommsPlatform list \<Rightarrow> int \<Rightarrow> string \<Rightarrow> error + 'i CommsCoordinator" where
  "CommsCoordinator_init thePlatforms theNumFrequencyBins theMediumAccessMethod =
     (if theNumFrequencyBins < 1 then Inl ValueError
      else Inr \<lparr>platformIDs = map platform_id thePlatforms, numPlatforms = length thePlatforms,
                numFrequencyBins_c = theNumFrequencyBins, mac = theMediumAccessMethod,
                TDMAindex = 0\<rparr>)"

text \<open>Put an updated platform back in front of the platforms a loop returns.\<close>

definition with_platform ::
  "'q \<Rightarrow> error + ('b \<times> 'q list) \<Rightarrow> error + ('b \<times> 'q list)" where
  "with_platform p r = (case r of Inl e \<Rightarrow> Inl e | Inr (tx, ps) \<Rightarrow> Inr (tx, p # ps))"

text \<open>
  The loop of \<^verbatim>\<open>__stepRoundRobin\<close> from platform \<open>p\<close> on, with the loop variable \<open>index\<close>
  and the bins filled so far. A write past the end of the bins is Python's \<^verbatim>\<open>IndexError\<close>.
  The \<^verbatim>\<open>break\<close> leaves the remaining platforms untouched.
\<close>

fun rr_loop ::
  "int \<Rightarrow> ('i, 'p) CommsPlatform list \<Rightarrow> nat \<Rightarrow> ('i, 'p) emission option list \<Rightarrow>
     error + (('i, 'p) emission option list \<times> ('i, 'p) CommsPlatform list)" where
  "rr_loop B [] index txPackets = Inr (txPackets, [])"
| "rr_loop B (p # ps) index txPackets =
     (case getData p of
        (None, p') \<Rightarrow>
          if int index = B then Inr (txPackets, p' # ps)
          else with_platform p' (rr_loop B ps index txPackets)
      | (Some theData, p') \<Rightarrow>
          if index < length txPackets then
            if int (index + 1) = B then Inr (txPackets[index := Some theData], p' # ps)
            else with_platform p' (rr_loop B ps (index + 1) (txPackets[index := Some theData]))
          else Inl IndexError)"

definition stepRoundRobin ::
  "'i CommsCoordinator \<Rightarrow> ('i, 'p) CommsPlatform list \<Rightarrow>
     error + (('i, 'p) emission option list \<times> ('i, 'p) CommsPlatform list)" where
  "stepRoundRobin c ps = rr_loop (numFrequencyBins_c c) ps 0 (replicate (nat (numFrequencyBins_c c)) None)"

definition stepTDMA ::
  "'i CommsCoordinator \<Rightarrow> ('i, 'p) CommsPlatform list \<Rightarrow>
     error + (('i, 'p) emission option list \<times> ('i, 'p) CommsPlatform list \<times> 'i CommsCoordinator)" where
  "stepTDMA c ps =
     (if numFrequencyBins_c c \<noteq> 1 then Inl ValueError
      else if \<not> TDMAindex c < length ps then Inl IndexError
      else case getData (ps ! TDMAindex c) of (theData, p') \<Rightarrow>
        Inr ([theData], ps[TDMAindex c := p'],
             c\<lparr>TDMAindex := (if TDMAindex c + 1 = numPlatforms c then 0 else TDMAindex c + 1)\<rparr>))"

fun fdma_loop ::
  "('i, 'p) CommsPlatform list \<Rightarrow> nat \<Rightarrow> ('i, 'p) emission option list \<Rightarrow>
     error + (('i, 'p) emission option list \<times> ('i, 'p) CommsPlatform list)" where
  "fdma_loop [] index txPackets = Inr (txPackets, [])"
| "fdma_loop (p # ps) index txPackets =
     (case getData p of (theData, p') \<Rightarrow>
        if index < length txPackets
        then with_platform p' (fdma_loop ps (index + 1) (txPackets[index := theData]))
        else Inl IndexError)"

definition stepFDMA ::
  "'i CommsCoordinator \<Rightarrow> ('i, 'p) CommsPlatform list \<Rightarrow>
     error + (('i, 'p) emission option list \<times> ('i, 'p) CommsPlatform list)" where
  "stepFDMA c ps =
     (if numFrequencyBins_c c < int (numPlatforms c) then Inl ValueError
      else fdma_loop ps 0 (replicate (nat (numFrequencyBins_c c)) None))"

text \<open>
  The second half of \<^verbatim>\<open>CommsCoordinator.step\<close>: every packet in a bin gets the index of
  its bin and the position of the platform that has its source id.
\<close>

fun assign_bins ::
  "'i list \<Rightarrow> ('i, 'p) CommsPlatform list \<Rightarrow> nat \<Rightarrow> ('i, 'p) emission option list \<Rightarrow>
     error + ('i, 'p) emission option list" where
  "assign_bins ids ps binIndex [] = Inr []"
| "assign_bins ids ps binIndex (None # row) =
     (case assign_bins ids ps (binIndex + 1) row of Inl e \<Rightarrow> Inl e | Inr row' \<Rightarrow> Inr (None # row'))"
| "assign_bins ids ps binIndex (Some packet # row) =
     (case index_of ids (sourceID (hdr packet)) of
        None \<Rightarrow> Inl ValueError
      | Some platformIndex \<Rightarrow>
          if \<not> platformIndex < length ps then Inl IndexError
          else
            (case assign_bins ids ps (binIndex + 1) row of
               Inl e \<Rightarrow> Inl e
             | Inr row' \<Rightarrow>
                 Inr (Some (map_hdr (\<lambda>h. h\<lparr>freqBin := binIndex,
                                           position := Some (pos (ps ! platformIndex))\<rparr>) packet)
                      # row')))"

definition CommsCoordinator_step ::
  "'i CommsCoordinator \<Rightarrow> ('i, 'p) CommsPlatform list \<Rightarrow>
     error + (('i, 'p) emission option list \<times> ('i, 'p) CommsPlatform list \<times> 'i CommsCoordinator)" where
  "CommsCoordinator_step c ps =
     (case
        (if mac c = ''rr'' then
           (case stepRoundRobin c ps of Inl e \<Rightarrow> Inl e | Inr (tx, ps') \<Rightarrow> Inr (tx, ps', c))
         else if mac c = ''tdma'' then stepTDMA c ps
         else if mac c = ''fdma'' then
           (case stepFDMA c ps of Inl e \<Rightarrow> Inl e | Inr (tx, ps') \<Rightarrow> Inr (tx, ps', c))
         else Inl ValueError)
      of Inl e \<Rightarrow> Inl e
       | Inr (txPackets, ps', c') \<Rightarrow>
           (case assign_bins (platformIDs c') ps' 0 txPackets of
              Inl e \<Rightarrow> Inl e
            | Inr txPackets' \<Rightarrow> Inr (txPackets', ps', c')))"

subsection \<open>Well-formed disruptor states\<close>

text \<open>What the checks of the \<^verbatim>\<open>DisruptorPlatform\<close> constructor establish.\<close>

definition disruptor_ok :: "('i, 'p) DisruptorPlatform \<Rightarrow> bool" where
  "disruptor_ok d = (0 \<le> numMaxTokens d \<and> 0 \<le> numTokensRemaining d \<and>
     1 \<le> numFrequencyBins d \<and> 1 \<le> numTimeStepsPerEpoch d)"

definition new_disruptor :: "nat \<Rightarrow> int \<Rightarrow> int \<Rightarrow> int \<Rightarrow> (nat, real) DisruptorPlatform" where
  "new_disruptor i mt B spe = projr (DisruptorPlatform_init i mt B spe (0, 0, 0) (0, 0, 0) (0, 0, 0))"

subsection \<open>What one coordinator step does to a platform\<close>

text \<open>
  \<open>drained tx p p'\<close>: the platform is as it was, or \<^verbatim>\<open>getData\<close> took the head of its
  transmit queue and that packet is in the bins \<open>tx\<close>. \<open>placed d tx\<close>: packet \<open>d\<close> sits in a
  bin of \<open>tx\<close>, with the bin's index and a position assigned.
\<close>

definition drained ::
  "('i, 'p) emission option list \<Rightarrow> ('i, 'p) CommsPlatform \<Rightarrow> ('i, 'p) CommsPlatform \<Rightarrow> bool" where
  "drained tx p p' = (p' = p \<or> (\<exists>d. getData p = (Some d, p') \<and> Some d \<in> set tx))"

definition placed :: "('i, 'p) emission \<Rightarrow> ('i, 'p) emission option list \<Rightarrow> bool" where
  "placed d tx = (\<exists>b<length tx. \<exists>v.
      tx ! b = Some (map_hdr (\<lambda>h. h\<lparr>freqBin := b, position := v\<rparr>) d))"

text \<open>Four platforms, each with one pending packet, and the source ids found in a row of bins.\<close>

definition demo4 :: "(nat, real) CommsPlatform list" where
  "demo4 = [txData (new_platform 1 100 True) 1 [2], txData (new_platform 2 100 True) 2 [3],
            txData (new_platform 3 100 True) 3 [4], txData (new_platform 4 100 True) 4 [1]]"

definition bin_sources :: "('i, 'p) emission option list \<Rightarrow> 'i option list" where
  "bin_sources tx = map (map_option (\<lambda>e. sourceID (hdr e))) tx"

subsection \<open>The environment\<close>

text \<open>Sequencing of calls that may raise, and a loop (\<open>emap\<close>) that stops at the first exception.\<close>

definition ebind :: "error + 'a \<Rightarrow> ('a \<Rightarrow> error + 'b) \<Rightarrow> error + 'b" where
  "ebind m f = (case m of Inl e \<Rightarrow> Inl e | Inr x \<Rightarrow> f x)"

fun emap :: "('a \<Rightarrow> error + 'b) \<Rightarrow> 'a list \<Rightarrow> error + 'b list" where
  "emap f [] = Inr []"
| "emap f (x # xs) =
     (case f x of
        Inl e \<Rightarrow> Inl e
      | Inr y \<Rightarrow> (case emap f xs of Inl e \<Rightarrow> Inl e | Inr ys \<Rightarrow> Inr (y # ys)))"

text \<open>Indexing with a non-negative index: \<^verbatim>\<open>IndexError\<close> past the end.\<close>

definition nth_err :: "'a list \<Rightarrow> nat \<Rightarrow> error + 'a" where
  "nth_err xs i = (if i < length xs then Inr (xs ! i) else Inl IndexError)"

text \<open>
  The adjacency matrix is a two-dimensional boolean array, here its list of rows.
  \<open>adj_get m i j\<close> is \<^verbatim>\<open>adjMatrix[i, j]\<close>.
\<close>

definition adj_get :: "bool list list \<Rightarrow> nat \<Rightarrow> nat \<Rightarrow> error + bool" where
  "adj_get m i j = ebind (nth_err m i) (\<lambda>row. nth_err row j)"

text \<open>\<^verbatim>\<open>numpy.nonzero\<close> of a boolean vector: the indices that hold \<^verbatim>\<open>True\<close>.\<close>

definition nonzero :: "bool list \<Rightarrow> nat list" where
  "nonzero bs = filter (\<lambda>j. bs ! j) [0..<length bs]"

record ('i, 'p) Environment =
  commsPlatforms :: "('i, 'p) CommsPlatform list"
  commsPlatformIDs :: "'i list"
  numCommsPlatforms :: nat
  disruptorPlatforms :: "('i, 'p) DisruptorPlatform list"
  disruptorPlatformIDs :: "'i list"
  numDisruptorPlatforms :: nat
  adjMatrix :: "bool list list"
  numFrequencyBins_e :: int
  coordinator :: "'i CommsCoordinator list"
  data :: "('i, 'p) grid"
  disruptorDelay :: int
  dataQueue :: "('i, 'p) grid Queue"
  windowSize :: real
  trafficTx :: "('i, 'p) emission list list list"
  trafficRx :: "('i, 'p) emission list list list"
  elapsedTime_e :: real

text \<open>
  \<^verbatim>\<open>__copyEnv\<close> builds a new outer list and new inner lists around the same emission
  objects. As a value the copy is the grid itself.
\<close>

definition copyEnv :: "('i, 'p) grid \<Rightarrow> ('i, 'p) grid" where
  "copyEnv theEnv = map (\<lambda>item. item) theEnv"

text \<open>\<^verbatim>\<open>__indexToID\<close>.\<close>

definition indexToID :: "('i, 'p) Environment \<Rightarrow> nat list \<Rightarrow> error + 'i list" where
  "indexToID e indices = emap (nth_err (commsPlatformIDs e)) indices"

text \<open>
  The destination ids that row \<open>r\<close> of the adjacency matrix gives:
  \<^verbatim>\<open>__indexToID(list(nonzero(adjMatrix[r, 0:numCommsPlatforms])[0]))\<close>.
\<close>

definition connectivity :: "('i, 'p) Environment \<Rightarrow> nat \<Rightarrow> error + 'i list" where
  "connectivity e r =
     ebind (nth_err (adjMatrix e) r)
       (\<lambda>row. indexToID e (nonzero (take (numCommsPlatforms e) row)))"

definition updatePlatformConnectivity ::
  "('i, 'p) Environment \<Rightarrow> error + ('i, 'p) Environment" where
  "updatePlatformConnectivity e =
     ebind (emap (\<lambda>(pIndex, p). ebind (connectivity e pIndex) (\<lambda>ids. Inr (p\<lparr>destIDs := ids\<rparr>)))
              (enumerate 0 (commsPlatforms e)))
       (\<lambda>cps.
     ebind (emap (\<lambda>(pIndex, p). ebind (connectivity e (pIndex + numCommsPlatforms e))
                                   (\<lambda>ids. Inr (p\<lparr>commsDestIDs := ids\<rparr>)))
              (enumerate 0 (disruptorPlatforms e)))
       (\<lambda>dps. Inr (e\<lparr>commsPlatforms := cps, disruptorPlatforms := dps\<rparr>)))"

text \<open>
  \<^verbatim>\<open>Environment.__init__\<close>, with its checks in the order of the source. The two
  \<^verbatim>\<open>assert(type(item) is ... for item in ...)\<close> lines assert a generator object, which is
  always true, and the type checks hold by typing.
\<close>

definition Environment_init ::
  "bool list list \<Rightarrow> ('i, 'p) CommsPlatform list \<Rightarrow> ('i, 'p) DisruptorPlatform list \<Rightarrow>
     int \<Rightarrow> int \<Rightarrow> string \<Rightarrow> real \<Rightarrow> error + ('i, 'p) Environment" where
  "Environment_init theAdjMatrix theCommsPlatforms theDisruptorPlatforms theNumFrequencyBins
       theDisruptorDelay theMediumAccessMethod theSlidingWindow =
     (let cids = map platform_id theCommsPlatforms;
          dids = map platform_id theDisruptorPlatforms;
          n = length theCommsPlatforms + length theDisruptorPlatforms
      in if \<not> distinct cids then Inl AssertionError
      else if \<not> distinct dids then Inl AssertionError
      else if \<not> (length theAdjMatrix = n \<and> (\<forall>row \<in> set theAdjMatrix. length row = n))
        then Inl AssertionError
      else if theNumFrequencyBins < 1 then Inl ValueError
      else
        ebind (CommsCoordinator_init theCommsPlatforms theNumFrequencyBins theMediumAccessMethod)
          (\<lambda>c.
        let theData = replicate (1 + length theDisruptorPlatforms)
                        (replicate (nat theNumFrequencyBins) None)
        in if \<not> theDisruptorDelay > 0 then Inl AssertionError
        else if \<not> theSlidingWindow \<ge> 0 then Inl AssertionError
        else
          updatePlatformConnectivity
            \<lparr>commsPlatforms = theCommsPlatforms, commsPlatformIDs = cids,
             numCommsPlatforms = length theCommsPlatforms,
             disruptorPlatforms = theDisruptorPlatforms, disruptorPlatformIDs = dids,
             numDisruptorPlatforms = length theDisruptorPlatforms,
             adjMatrix = theAdjMatrix, numFrequencyBins_e = theNumFrequencyBins,
             coordinator = [c], data = theData, disruptorDelay = theDisruptorDelay,
             dataQueue = \<lparr>maxsize = theDisruptorDelay,
                          items = replicate (nat theDisruptorDelay) (copyEnv theData)\<rparr>,
             windowSize = theSlidingWindow,
             trafficTx = replicate (length theCommsPlatforms)
                           (replicate (length theCommsPlatforms) []),
             trafficRx = replicate (length theCommsPlatforms)
                           (replicate (length theCommsPlatforms) []),
             elapsedTime_e = 0\<rparr>))"

text \<open>
  \<^verbatim>\<open>trafficStatistics\<close>: the matrix starts as all \<^verbatim>\<open>0.0\<close> and an entry is overwritten where
  the transmit log is not empty.
\<close>

definition trafficStatistics :: "('i, 'p) Environment \<Rightarrow> error + real list list" where
  "trafficStatistics e =
     emap (\<lambda>sourcePlatformIndex.
       emap (\<lambda>destPlatformIndex.
         ebind (ebind (nth_err (trafficTx e) sourcePlatformIndex)
                  (\<lambda>row. nth_err row destPlatformIndex))
           (\<lambda>tx. if tx \<noteq> [] then
                   ebind (ebind (nth_err (trafficRx e) sourcePlatformIndex)
                            (\<lambda>row. nth_err row destPlatformIndex))
                     (\<lambda>rx. Inr (real (length rx) / real (length tx)))
                 else Inr 0))
         [0..<numCommsPlatforms e])
       [0..<numCommsPlatforms e]"

subsection \<open>The phases of \<^verbatim>\<open>Environment.step\<close>\<close>

text \<open>
  The loop over the coordinators: \<^verbatim>\<open>self.data[index] = c.step()\<close>. Every coordinator
  works on the environment's platforms.
\<close>

fun step_coordinators ::
  "nat \<Rightarrow> 'i CommsCoordinator list \<Rightarrow> ('i, 'p) CommsPlatform list \<Rightarrow> ('i, 'p) grid \<Rightarrow>
     error + ('i CommsCoordinator list \<times> ('i, 'p) CommsPlatform list \<times> ('i, 'p) grid)" where
  "step_coordinators index [] ps theData = Inr ([], ps, theData)"
| "step_coordinators index (c # cs) ps theData =
     (case CommsCoordinator_step c ps of
        Inl e \<Rightarrow> Inl e
      | Inr (txPackets, ps', c') \<Rightarrow>
          if \<not> index < length theData then Inl IndexError
          else
            (case step_coordinators (index + 1) cs ps' (theData[index := txPackets]) of
               Inl e \<Rightarrow> Inl e
             | Inr (cs', ps'', theData') \<Rightarrow> Inr (c' # cs', ps'', theData')))"

text \<open>
  What a disruptor in matrix column \<open>col\<close> sees of one cell of the snapshot. \<open>ids\<close> are
  the ids of the platforms that fill this row of the grid and \<open>offset\<close> is where their
  rows start in the adjacency matrix.
\<close>

definition observe_cell ::
  "'i list \<Rightarrow> bool list list \<Rightarrow> nat \<Rightarrow> nat \<Rightarrow> ('i, 'p) emission option \<Rightarrow>
     error + ('i, 'p) emission option" where
  "observe_cell ids adj offset col cell =
     (case cell of
        None \<Rightarrow> Inr None
      | Some packet \<Rightarrow>
          (case index_of ids (sourceID (hdr packet)) of
             None \<Rightarrow> Inl ValueError
           | Some theSourceIndex \<Rightarrow>
               ebind (adj_get adj (theSourceIndex + offset) col)
                 (\<lambda>b. Inr (if \<not> b then None else Some packet))))"

text \<open>
  The view of disruptor \<open>disruptorIndex\<close>: a copy of the snapshot in which the
  coordinator rows and then the disruptor rows are filtered cell by cell.
\<close>

definition observe ::
  "('i, 'p) Environment \<Rightarrow> nat \<Rightarrow> ('i, 'p) grid \<Rightarrow> error + ('i, 'p) grid" where
  "observe e disruptorIndex theEnv =
     (let theEnvTemp = copyEnv theEnv;
          nc = length (coordinator e);
          col = disruptorIndex + numCommsPlatforms e
      in
      ebind (emap (\<lambda>cIndex. ebind (nth_err theEnvTemp cIndex)
                     (emap (observe_cell (commsPlatformIDs e) (adjMatrix e) 0 col)))
               [0..<nc])
        (\<lambda>crows.
      ebind (emap (\<lambda>dIndex. ebind (nth_err theEnvTemp (dIndex + nc))
                     (emap (observe_cell (disruptorPlatformIDs e) (adjMatrix e)
                              (numCommsPlatforms e) col)))
               [0..<numDisruptorPlatforms e])
        (\<lambda>drows. Inr (crows @ drows @ drop (nc + numDisruptorPlatforms e) theEnvTemp))))"

text \<open>The loop \<^verbatim>\<open>self.data[pIndex + len(self.coordinator)] = p.getDisruptions()\<close>.\<close>

fun collect_disruptions ::
  "nat \<Rightarrow> (nat \<Rightarrow> nat) \<Rightarrow> nat \<Rightarrow> ('i, 'p) DisruptorPlatform list \<Rightarrow> ('i, 'p) grid \<Rightarrow>
     error + (('i, 'p) DisruptorPlatform list \<times> ('i, 'p) grid)" where
  "collect_disruptions nc rnd pIndex [] theData = Inr ([], theData)"
| "collect_disruptions nc rnd pIndex (p # ps) theData =
     (case getDisruptions p (rnd pIndex) of
        Inl e \<Rightarrow> Inl e
      | Inr (tokens, p') \<Rightarrow>
          if \<not> pIndex + nc < length theData then Inl IndexError
          else
            (case collect_disruptions nc rnd (pIndex + 1) ps (theData[pIndex + nc := tokens]) of
               Inl e \<Rightarrow> Inl e
             | Inr (ps', theData') \<Rightarrow> Inr (p' # ps', theData')))"

text \<open>The emission objects of a grid, row by row and bin by bin.\<close>

definition emissions :: "('i, 'p) grid \<Rightarrow> ('i, 'p) emission list" where
  "emissions g = concat (map (List.map_filter (\<lambda>c. c)) g)"

text \<open>\<^verbatim>\<open>emissionObj.emissionTime = self.elapsedTime\<close>, for every occupied cell.\<close>

definition stamp :: "real \<Rightarrow> ('i, 'p) emission \<Rightarrow> ('i, 'p) emission" where
  "stamp t em = map_hdr (\<lambda>h. h\<lparr>emissionTime := Some t\<rparr>) em"

definition stamp_grid :: "real \<Rightarrow> ('i, 'p) grid \<Rightarrow> ('i, 'p) grid" where
  "stamp_grid t g = map (map (map_option (stamp t))) g"

text \<open>\<^verbatim>\<open>log[s][d].append(em)\<close> on a matrix of lists.\<close>

definition log_append :: "'a list list list \<Rightarrow> nat \<Rightarrow> nat \<Rightarrow> 'a \<Rightarrow> 'a list list list" where
  "log_append m s d x = m[s := (m ! s)[d := m ! s ! d @ [x]]]"

definition in_log :: "'a list list list \<Rightarrow> nat \<Rightarrow> nat \<Rightarrow> bool" where
  "in_log m s d = (s < length m \<and> d < length (m ! s))"

text \<open>
  The body of the loop over \<^verbatim>\<open>emissionObj.destID\<close> in the fan-out. The state is the
  transmit log and the batches \<^verbatim>\<open>txData\<close>. Every exception inside the \<^verbatim>\<open>try\<close> ends the
  iteration for this destination and keeps what was done before it was raised.
\<close>

definition route ::
  "('i, 'p) Environment \<Rightarrow> ('i, 'p) emission \<Rightarrow>
     ('i, 'p) emission list list list \<times> ('i, 'p) emission list list \<Rightarrow> 'i \<Rightarrow>
     ('i, 'p) emission list list list \<times> ('i, 'p) emission list list" where
  "route e emissionObj st dest =
     (case st of (tx, batches) \<Rightarrow>
      case index_of (commsPlatformIDs e) dest of
        None \<Rightarrow> (tx, batches)
      | Some destPlatformIndex \<Rightarrow>
          if sourceType emissionObj = 0 then
            (case index_of (commsPlatformIDs e) (sourceID (hdr emissionObj)) of
               None \<Rightarrow> (tx, batches)
             | Some sourcePlatformIndex \<Rightarrow>
                 if \<not> in_log tx sourcePlatformIndex destPlatformIndex then (tx, batches)
                 else
                   let tx' = log_append tx sourcePlatformIndex destPlatformIndex emissionObj in
                   (case adj_get (adjMatrix e) sourcePlatformIndex destPlatformIndex of
                      Inl err \<Rightarrow> (tx', batches)
                    | Inr b \<Rightarrow>
                        if b \<and> destPlatformIndex < length batches
                        then (tx', batches[destPlatformIndex := batches ! destPlatformIndex @ [emissionObj]])
                        else (tx', batches)))
          else
            (case index_of (disruptorPlatformIDs e) (sourceID (hdr emissionObj)) of
               None \<Rightarrow> (tx, batches)
             | Some k \<Rightarrow>
                 (case adj_get (adjMatrix e) (k + numCommsPlatforms e) destPlatformIndex of
                    Inl err \<Rightarrow> (tx, batches)
                  | Inr b \<Rightarrow>
                      if b \<and> destPlatformIndex < length batches
                      then (tx, batches[destPlatformIndex := batches ! destPlatformIndex @ [emissionObj]])
                      else (tx, batches))))"

text \<open>The fan-out over the (stamped) emissions of the grid.\<close>

definition fanout ::
  "('i, 'p) Environment \<Rightarrow> ('i, 'p) emission list \<Rightarrow>
     ('i, 'p) emission list list list \<times> ('i, 'p) emission list list" where
  "fanout e ems =
     foldl (\<lambda>st emissionObj. foldl (route e emissionObj) st (destID (hdr emissionObj)))
       (trafficTx e, replicate (numCommsPlatforms e) []) ems"

text \<open>\<^verbatim>\<open>commPlatform.putData(txData[index])\<close> for every comms platform.\<close>

definition deliver ::
  "('i, 'p) CommsPlatform list \<Rightarrow> ('i, 'p) emission list list \<Rightarrow>
     error + ('i, 'p) CommsPlatform list" where
  "deliver ps batches =
     emap (\<lambda>(index, commPlatform). ebind (nth_err batches index) (\<lambda>b. Inr (putData commPlatform b)))
       (enumerate 0 ps)"

text \<open>
  The statistics update for one destination: the second loop over \<^verbatim>\<open>txData[dest]\<close>, with
  \<^verbatim>\<open>isDisrupted\<close> computed by the first.
\<close>

fun account_loop ::
  "'i list \<Rightarrow> bool \<Rightarrow> nat \<Rightarrow> ('i, 'p) emission list \<Rightarrow> ('i, 'p) emission list list list \<Rightarrow>
     error + ('i, 'p) emission list list list" where
  "account_loop ids isDisrupted dst [] rx = Inr rx"
| "account_loop ids isDisrupted dst (emissionObj # ems) rx =
     (if sourceType emissionObj = 0 then
        (case index_of ids (sourceID (hdr emissionObj)) of
           None \<Rightarrow> Inl ValueError
         | Some sourcePlatformIndex \<Rightarrow>
             if \<not> isDisrupted then
               if \<not> in_log rx sourcePlatformIndex dst then Inl IndexError
               else account_loop ids isDisrupted dst ems
                      (log_append rx sourcePlatformIndex dst emissionObj)
             else account_loop ids isDisrupted dst ems rx)
      else account_loop ids isDisrupted dst ems rx)"

fun account ::
  "'i list \<Rightarrow> nat list \<Rightarrow> ('i, 'p) emission list list \<Rightarrow> ('i, 'p) emission list list list \<Rightarrow>
     error + ('i, 'p) emission list list list" where
  "account ids [] batches rx = Inr rx"
| "account ids (destPlatformIndex # ds) batches rx =
     (case nth_err batches destPlatformIndex of
        Inl e \<Rightarrow> Inl e
      | Inr batch \<Rightarrow>
          (case account_loop ids (list_ex (\<lambda>em. sourceType em = 1) batch) destPlatformIndex batch rx of
             Inl e \<Rightarrow> Inl e
           | Inr rx' \<Rightarrow> account ids ds batches rx'))"

text \<open>
  The pruning loop on one log: drop the head while it is older than the window. A log
  entry without an emission time would make the subtraction raise. The test is
  \<^verbatim>\<open>self.elapsedTime - emissionTime > self.windowSize\<close> on finite times; in the program it
  is false as well when the difference is \<^verbatim>\<open>nan\<close> (\<^verbatim>\<open>inf - inf\<close>), a case outside the model.
\<close>

fun prune_log :: "real \<Rightarrow> real \<Rightarrow> ('i, 'p) emission list \<Rightarrow> error + ('i, 'p) emission list" where
  "prune_log t w [] = Inr []"
| "prune_log t w (em # ems) =
     (case emissionTime (hdr em) of
        None \<Rightarrow> Inl TypeError
      | Some te \<Rightarrow> if t - te > w then prune_log t w ems else Inr (em # ems))"

definition prune_matrix ::
  "real \<Rightarrow> real \<Rightarrow> nat \<Rightarrow> ('i, 'p) emission list list list \<Rightarrow>
     error + ('i, 'p) emission list list list" where
  "prune_matrix t w n m =
     ebind (emap (\<lambda>s. ebind (nth_err m s)
                    (\<lambda>row. ebind (emap (\<lambda>d. ebind (nth_err row d) (prune_log t w)) [0..<n])
                              (\<lambda>r. Inr (r @ drop n row))))
              [0..<n])
       (\<lambda>rows. Inr (rows @ drop n m))"


subsection \<open>\<^verbatim>\<open>Environment.step\<close>\<close>

text \<open>
  The step, phase by phase in the order of the source. \<open>rnd k\<close> is the random source of
  disruptor \<open>k\<close> in this step.

  One point of aliasing matters. The source queues a structural copy of \<^verbatim>\<open>self.data\<close>
  and only then, in the fan-out loop, writes \<^verbatim>\<open>emissionTime\<close> into every emission object
  of \<^verbatim>\<open>self.data\<close>. The copy shares these objects, so the queued snapshot shows the
  emission time as well. Nothing reads the snapshot in between, and an emission object
  is stamped in one step only (every row of \<^verbatim>\<open>self.data\<close> is replaced in every step).
  With emissions as values, the model therefore stamps the grid first and queues the
  stamped grid.

  \<open>deltaT\<close> is any real number, negative ones included: the source does not check it.
  It stands for a finite float; \<^verbatim>\<open>step(float('inf'))\<close> and \<^verbatim>\<open>step(float('nan'))\<close>, which the
  source accepts too, are outside the model.
\<close>

definition Environment_step ::
  "('i, 'p) Environment \<Rightarrow> real \<Rightarrow> (nat \<Rightarrow> nat) \<Rightarrow> error + ('i, 'p) Environment" where
  "Environment_step e deltaT rnd =
     (let cps = map (Platform_step deltaT) (commsPlatforms e) in
      ebind (emap (DisruptorPlatform_step deltaT) (disruptorPlatforms e)) (\<lambda>dps.
      ebind (updatePlatformConnectivity (e\<lparr>commsPlatforms := cps, disruptorPlatforms := dps\<rparr>)) (\<lambda>e1.
      let e2 = e1\<lparr>elapsedTime_e := elapsedTime_e e1 + deltaT\<rparr> in
      ebind (step_coordinators 0 (coordinator e2) (commsPlatforms e2) (data e2)) (\<lambda>(cs, ps, theData).
      let e3 = e2\<lparr>coordinator := cs, commsPlatforms := ps, data := theData\<rparr> in
      ebind (qget (dataQueue e3)) (\<lambda>(theEnv, q).
      ebind (emap (\<lambda>(disruptorIndex, disruptor).
                     ebind (observe e3 disruptorIndex theEnv)
                       (\<lambda>theEnvTemp. Inr (disruptor\<lparr>env := Some theEnvTemp\<rparr>)))
               (enumerate 0 (disruptorPlatforms e3))) (\<lambda>dps1.
      ebind (collect_disruptions (length (coordinator e3)) rnd 0 dps1 (data e3)) (\<lambda>(dps2, theData2).
      let stamped = stamp_grid (elapsedTime_e e3) theData2;
          q' = qput q (copyEnv stamped)
      in if \<not> qfull q' then Inl AssertionError
      else
        (case fanout e3 (emissions stamped) of (tx, batches) \<Rightarrow>
         ebind (deliver (commsPlatforms e3) batches) (\<lambda>cps'.
         ebind (account (commsPlatformIDs e3) [0..<numCommsPlatforms e3] batches (trafficRx e3)) (\<lambda>rx.
         ebind (if windowSize e3 > 0
                then prune_matrix (elapsedTime_e e3) (windowSize e3) (numCommsPlatforms e3) tx
                else Inr tx) (\<lambda>tx'.
         ebind (if windowSize e3 > 0
                then prune_matrix (elapsedTime_e e3) (windowSize e3) (numCommsPlatforms e3) rx
                else Inr rx) (\<lambda>rx'.
         Inr (e3\<lparr>disruptorPlatforms := dps2, data := stamped, dataQueue := q',
                 commsPlatforms := cps', trafficTx := tx', trafficRx := rx'\<rparr>)))))))))))))"

subsection \<open>Runs\<close>

text \<open>
  Between steps the user calls \<^verbatim>\<open>txData\<close> and \<^verbatim>\<open>rxData\<close> on comms platforms (given here by
  their position in \<^verbatim>\<open>commsPlatforms\<close>) and may assign \<^verbatim>\<open>adjMatrix\<close>.
\<close>

definition user_txData ::
  "('i, 'p) Environment \<Rightarrow> nat \<Rightarrow> 'p \<Rightarrow> 'i list \<Rightarrow> ('i, 'p) Environment" where
  "user_txData e k thePayload theDestID =
     (if k < length (commsPlatforms e)
      then e\<lparr>commsPlatforms :=
                (commsPlatforms e)[k := txData (commsPlatforms e ! k) thePayload theDestID]\<rparr>
      else e)"

definition user_rxData ::
  "('i, 'p) Environment \<Rightarrow> nat \<Rightarrow> 'p option \<times> ('i, 'p) Environment" where
  "user_rxData e k =
     (if k < length (commsPlatforms e)
      then (case rxData (commsPlatforms e ! k) of
              (thePayload, p') \<Rightarrow> (thePayload, e\<lparr>commsPlatforms := (commsPlatforms e)[k := p']\<rparr>))
      else (None, e))"

datatype ('i, 'p) action =
    TxData nat 'p "'i list"
  | RxData nat
  | SetAdjMatrix "bool list list"
  | Step real "nat \<Rightarrow> nat"

text \<open>
  A run from environment \<open>e\<close>. The second component collects \<^verbatim>\<open>self.data\<close> as it stands at
  the end of each step, oldest first.
\<close>

fun run ::
  "('i, 'p) Environment \<Rightarrow> ('i, 'p) grid list \<Rightarrow> ('i, 'p) action list \<Rightarrow>
     error + (('i, 'p) Environment \<times> ('i, 'p) grid list)" where
  "run e h [] = Inr (e, h)"
| "run e h (TxData k x ds # acts) = run (user_txData e k x ds) h acts"
| "run e h (RxData k # acts) = run (snd (user_rxData e k)) h acts"
| "run e h (SetAdjMatrix m # acts) = run (e\<lparr>adjMatrix := m\<rparr>) h acts"
| "run e h (Step deltaT rnd # acts) =
     (case Environment_step e deltaT rnd of
        Inl err \<Rightarrow> Inl err
      | Inr e' \<Rightarrow> run e' (h @ [data e']) acts)"

text \<open>Three comms platforms with ids 1, 2, 3 and no disruptor, fully connected.\<close>

definition demo_env :: "(nat, real) Environment" where
  "demo_env = projr (Environment_init (replicate 3 (replicate 3 True))
                [new_platform 1 100 True, new_platform 2 100 True, new_platform 3 100 True]
                [] 10 1 ''rr'' 0)"

definition demo_env_with :: "string \<Rightarrow> int \<Rightarrow> (nat, real) Environment" where
  "demo_env_with m B = projr (Environment_init (replicate 3 (replicate 3 True))
                [new_platform 1 100 True, new_platform 2 100 True, new_platform 3 100 True]
                [] B 1 m 0)"

text \<open>
  The configurations in which the coordinator's policy cannot run: a name that is none
  of the three, TDMA with more or fewer than one bin, FDMA with fewer bins than
  platforms.
\<close>

definition bad_mac :: "string \<Rightarrow> int \<Rightarrow> nat \<Rightarrow> bool" where
  "bad_mac m B n = ((m \<noteq> ''rr'' \<and> m \<noteq> ''tdma'' \<and> m \<noteq> ''fdma'') \<or>
                    (m = ''tdma'' \<and> B \<noteq> 1) \<or> (m = ''fdma'' \<and> B < int n))"

subsection \<open>Closed forms for the fan-out\<close>

text \<open>
  \<open>log_dims m n\<close>: the log matrix is \<open>n\<close> by \<open>n\<close>. \<open>ids_ok\<close>: what the constructor
  establishes about the comms ids. \<open>source_index\<close> is the row of the adjacency matrix
  that belongs to the source of an emission, \<open>reaches e em d\<close> says that the matrix lets
  \<open>em\<close> through to comms platform \<open>d\<close>, and \<open>from_comms e s em\<close> that \<open>em\<close> is a packet or
  acknowledgement of comms platform \<open>s\<close>. \<open>copies_to e d em\<close> holds \<open>em\<close> once for every
  occurrence of the id of platform \<open>d\<close> in its destination list. \<open>tx_new\<close> and \<open>out_new\<close>
  are what the fan-out of the emissions \<open>ems\<close> adds to a transmit log and to a batch.
\<close>

definition log_dims :: "'a list list list \<Rightarrow> nat \<Rightarrow> bool" where
  "log_dims m n = (length m = n \<and> list_all (\<lambda>row. length row = n) m)"

definition source_index :: "('i, 'p) Environment \<Rightarrow> ('i, 'p) emission \<Rightarrow> nat option" where
  "source_index e em =
     (if sourceType em = 0 then index_of (commsPlatformIDs e) (sourceID (hdr em))
      else map_option (\<lambda>k. k + numCommsPlatforms e)
             (index_of (disruptorPlatformIDs e) (sourceID (hdr em))))"

definition reaches :: "('i, 'p) Environment \<Rightarrow> ('i, 'p) emission \<Rightarrow> nat \<Rightarrow> bool" where
  "reaches e em d =
     (case source_index e em of None \<Rightarrow> False | Some r \<Rightarrow> adj_get (adjMatrix e) r d = Inr True)"

definition from_comms :: "('i, 'p) Environment \<Rightarrow> nat \<Rightarrow> ('i, 'p) emission \<Rightarrow> bool" where
  "from_comms e s em =
     (sourceType em = 0 \<and> index_of (commsPlatformIDs e) (sourceID (hdr em)) = Some s)"

definition copies_to :: "('i, 'p) Environment \<Rightarrow> nat \<Rightarrow> ('i, 'p) emission \<Rightarrow> ('i, 'p) emission list" where
  "copies_to e d em = replicate (count_list (destID (hdr em)) (commsPlatformIDs e ! d)) em"

definition tx_new :: "('i, 'p) Environment \<Rightarrow> nat \<Rightarrow> nat \<Rightarrow> ('i, 'p) emission list \<Rightarrow> ('i, 'p) emission list" where
  "tx_new e s d ems = concat (map (copies_to e d) (filter (from_comms e s) ems))"

definition out_new :: "('i, 'p) Environment \<Rightarrow> nat \<Rightarrow> ('i, 'p) emission list \<Rightarrow> ('i, 'p) emission list" where
  "out_new e d ems = concat (map (copies_to e d) (filter (\<lambda>em. reaches e em d) ems))"

definition ids_ok :: "('i, 'p) Environment \<Rightarrow> bool" where
  "ids_ok e = (numCommsPlatforms e = length (commsPlatformIDs e) \<and> distinct (commsPlatformIDs e))"

text \<open>
  \<open>env_wf\<close>: the invariant of the two traffic logs, both \<open>C\<close> by \<open>C\<close> with distinct comms
  ids. \<open>static_eq e e'\<close>: the fields that \<^verbatim>\<open>step\<close> never assigns agree in \<open>e\<close> and \<open>e'\<close>.
\<close>

definition env_wf :: "('i, 'p) Environment \<Rightarrow> bool" where
  "env_wf e = (ids_ok e \<and> log_dims (trafficTx e) (numCommsPlatforms e) \<and>
               log_dims (trafficRx e) (numCommsPlatforms e))"

definition static_eq :: "('i, 'p) Environment \<Rightarrow> ('i, 'p) Environment \<Rightarrow> bool" where
  "static_eq e e' = (commsPlatformIDs e' = commsPlatformIDs e \<and>
     disruptorPlatformIDs e' = disruptorPlatformIDs e \<and>
     numCommsPlatforms e' = numCommsPlatforms e \<and>
     numDisruptorPlatforms e' = numDisruptorPlatforms e \<and>
     adjMatrix e' = adjMatrix e \<and> windowSize e' = windowSize e \<and>
     disruptorDelay e' = disruptorDelay e \<and> numFrequencyBins_e e' = numFrequencyBins_e e)"

text \<open>
  \<open>rx_new e s d ems\<close> is what one step adds to the receive log \<open>[s][d]\<close>: nothing when the
  batch of platform \<open>d\<close> holds a disruption token, else the copies that came from platform
  \<open>s\<close>. \<open>pruned\<close> is the pruning of one log as \<^verbatim>\<open>step\<close> applies it, only with a positive window.
\<close>

definition rx_new :: "('i, 'p) Environment \<Rightarrow> nat \<Rightarrow> nat \<Rightarrow> ('i, 'p) emission list \<Rightarrow> ('i, 'p) emission list" where
  "rx_new e s d ems =
     (if list_ex (\<lambda>em. sourceType em = 1) (out_new e d ems) then []
      else filter (from_comms e s) (out_new e d ems))"

definition pruned ::
  "('i, 'p) Environment \<Rightarrow> ('i, 'p) emission list \<Rightarrow> error + ('i, 'p) emission list" where
  "pruned e xs = (if windowSize e > 0 then prune_log (elapsedTime_e e) (windowSize e) xs else Inr xs)"

subsection \<open>Notions for the traffic statistics\<close>

text \<open>
  \<open>all_true_adj n m\<close>: the matrix \<open>m\<close> is \<open>n\<close> by \<open>n\<close> and \<^verbatim>\<open>True\<close> everywhere;
  \<open>keeps_all_true n acts\<close>: every matrix the user assigns in \<open>acts\<close> is such a matrix.
  \<open>ratio_matrix\<close> is the matrix of the quotients \<^verbatim>\<open>len(rx[s][d]) / len(tx[s][d])\<close>, zero where
  the transmit log is empty. \<open>lossless\<close> is the invariant of a run without disruptors under
  an all-true matrix: the receive logs equal the transmit logs.
\<close>

definition all_true_adj :: "nat \<Rightarrow> bool list list \<Rightarrow> bool" where
  "all_true_adj n m = (length m = n \<and> list_all (\<lambda>row. length row = n \<and> list_all (\<lambda>b. b) row) m)"

definition keeps_all_true :: "nat \<Rightarrow> ('i, 'p) action list \<Rightarrow> bool" where
  "keeps_all_true n acts =
     list_all (\<lambda>a. case a of SetAdjMatrix m \<Rightarrow> all_true_adj n m | _ \<Rightarrow> True) acts"

definition ratio_matrix :: "('i, 'p) Environment \<Rightarrow> real list list" where
  "ratio_matrix e =
     map (\<lambda>s. map (\<lambda>d. if trafficTx e ! s ! d \<noteq> []
                        then real (length (trafficRx e ! s ! d)) / real (length (trafficTx e ! s ! d))
                        else 0) [0..<numCommsPlatforms e]) [0..<numCommsPlatforms e]"

definition lossless :: "('i, 'p) Environment \<Rightarrow> bool" where
  "lossless e = (env_wf e \<and> disruptorPlatformIDs e = [] \<and>
     all_true_adj (numCommsPlatforms e) (adjMatrix e) \<and> trafficRx e = trafficTx e)"

text \<open>
  \<open>empty_grid nd B\<close> is the grid the constructor builds: one row for the coordinator and
  one for each of the \<open>nd\<close> disruptors, \<open>B\<close> empty bins each. \<open>demo_acts\<close> is a short session
  on \<open>demo_env\<close>, and \<open>demo_run\<close> the result of a session that raises nothing.
\<close>

definition empty_grid :: "nat \<Rightarrow> int \<Rightarrow> ('i, 'p) grid" where
  "empty_grid nd B = replicate (1 + nd) (replicate (nat B) None)"

definition demo_acts :: "(nat, real) action list" where
  "demo_acts = [TxData 0 (7/10) [2, 3], Step (1/4) (\<lambda>k. 0), TxData 1 (1/2) [1], Step (1/4) (\<lambda>k. 0)]"

definition demo_run :: "(nat, real) action list \<Rightarrow> (nat, real) Environment \<times> (nat, real) grid list" where
  "demo_run acts = projr (run demo_env [] acts)"

subsection \<open>Notions for the sliding window\<close>

text \<open>
  \<open>within_window t w em\<close>: at time \<open>t\<close> the emission is at most \<open>w\<close> old. \<open>time_le\<close> compares
  two emission times and \<open>emitted_by t\<close> bounds one by \<open>t\<close>; both are false for an emission
  that was never stamped. A log is a \<open>good_log\<close> at time \<open>t\<close> when its emission times do
  not decrease along the list and none lies after \<open>t\<close>. \<open>timely\<close> and \<open>windowed\<close> say that
  all logs of an environment are good, respectively within the window, at its current
  time. \<open>nonneg_steps\<close>: no step of the session has a negative \<^verbatim>\<open>deltaT\<close>. \<open>window_inv\<close> is
  the invariant of such a session.
\<close>

definition within_window :: "real \<Rightarrow> real \<Rightarrow> ('i, 'p) emission \<Rightarrow> bool" where
  "within_window t w em =
     (case emissionTime (hdr em) of None \<Rightarrow> False | Some te \<Rightarrow> t - te \<le> w)"

definition time_le :: "('i, 'p) emission \<Rightarrow> ('i, 'p) emission \<Rightarrow> bool" where
  "time_le a b =
     (case emissionTime (hdr a) of
        None \<Rightarrow> False
      | Some x \<Rightarrow> (case emissionTime (hdr b) of None \<Rightarrow> False | Some y \<Rightarrow> x \<le> y))"

definition emitted_by :: "real \<Rightarrow> ('i, 'p) emission \<Rightarrow> bool" where
  "emitted_by t em = (case emissionTime (hdr em) of None \<Rightarrow> False | Some te \<Rightarrow> te \<le> t)"

definition good_log :: "real \<Rightarrow> ('i, 'p) emission list \<Rightarrow> bool" where
  "good_log t xs = (sorted_wrt time_le xs \<and> list_all (emitted_by t) xs)"

definition timely :: "('i, 'p) Environment \<Rightarrow> bool" where
  "timely e = (\<forall>s<numCommsPlatforms e. \<forall>d<numCommsPlatforms e.
     good_log (elapsedTime_e e) (trafficTx e ! s ! d) \<and>
     good_log (elapsedTime_e e) (trafficRx e ! s ! d))"

definition windowed :: "('i, 'p) Environment \<Rightarrow> bool" where
  "windowed e = (\<forall>s<numCommsPlatforms e. \<forall>d<numCommsPlatforms e.
     list_all (within_window (elapsedTime_e e) (windowSize e)) (trafficTx e ! s ! d) \<and>
     list_all (within_window (elapsedTime_e e) (windowSize e)) (trafficRx e ! s ! d))"

definition nonneg_steps :: "('i, 'p) action list \<Rightarrow> bool" where
  "nonneg_steps acts = list_all (\<lambda>a. case a of Step deltaT rnd \<Rightarrow> 0 \<le> deltaT | _ \<Rightarrow> True) acts"

definition window_inv :: "real \<Rightarrow> ('i, 'p) Environment \<Rightarrow> bool" where
  "window_inv w e = (env_wf e \<and> timely e \<and> windowSize e = w \<and> (0 < w \<longrightarrow> windowed e))"

text \<open>
  \<open>demo_env\<close> with a sliding window \<open>w\<close>, and two sessions on it: one whose second step
  goes back in time, one that only goes forward.
\<close>

definition demo_env_window :: "real \<Rightarrow> (nat, real) Environment" where
  "demo_env_window w = projr (Environment_init (replicate 3 (replicate 3 True))
                [new_platform 1 100 True, new_platform 2 100 True, new_platform 3 100 True]
                [] 10 1 ''rr'' w)"

definition backwards_acts :: "(nat, real) action list" where
  "backwards_acts = [TxData 0 (7/10) [2], Step 5 (\<lambda>k. 0), TxData 0 (1/2) [2],
                     Step (- 4) (\<lambda>k. 0), Step (9/2) (\<lambda>k. 0)]"

definition forwards_acts :: "(nat, real) action list" where
  "forwards_acts = [TxData 0 (7/10) [2], Step 1 (\<lambda>k. 0), TxData 0 (1/2) [2],
                    Step 1 (\<lambda>k. 0), Step 1 (\<lambda>k. 0)]"

subsection \<open>Closed form of the view given to a disruptor\<close>

text \<open>
  \<open>visible ids adj offset col em\<close>: the source of \<open>em\<close> is in \<open>ids\<close>, at index \<open>s\<close> say, and
  \<^verbatim>\<open>adjMatrix[s + offset, col]\<close> is \<^verbatim>\<open>True\<close>. \<open>filter_row\<close> empties the cells of a row that
  are not visible. \<open>view e k S\<close> filters the coordinator rows of \<open>S\<close> with the comms ids and
  offset 0, the disruptor rows with the disruptor ids and offset \<open>C\<close>, both against column
  \<open>C + k\<close>, as the two loops of \<^verbatim>\<open>step\<close> do for disruptor \<open>k\<close>.
\<close>

definition visible :: "'i list \<Rightarrow> bool list list \<Rightarrow> nat \<Rightarrow> nat \<Rightarrow> ('i, 'p) emission \<Rightarrow> bool" where
  "visible ids adj offset col em =
     (case index_of ids (sourceID (hdr em)) of
        None \<Rightarrow> False
      | Some s \<Rightarrow> adj_get adj (s + offset) col = Inr True)"

definition filter_row ::
  "'i list \<Rightarrow> bool list list \<Rightarrow> nat \<Rightarrow> nat \<Rightarrow> ('i, 'p) emission option list \<Rightarrow>
     ('i, 'p) emission option list" where
  "filter_row ids adj offset col row =
     map (\<lambda>cell. case cell of
                   None \<Rightarrow> None
                 | Some em \<Rightarrow> if visible ids adj offset col em then Some em else None) row"

definition view :: "('i, 'p) Environment \<Rightarrow> nat \<Rightarrow> ('i, 'p) grid \<Rightarrow> ('i, 'p) grid" where
  "view e k S =
     (let nc = length (coordinator e); col = k + numCommsPlatforms e in
      map (filter_row (commsPlatformIDs e) (adjMatrix e) 0 col) (take nc S) @
      map (filter_row (disruptorPlatformIDs e) (adjMatrix e) (numCommsPlatforms e) col)
        (take (numDisruptorPlatforms e) (drop nc S)) @
      drop (nc + numDisruptorPlatforms e) S)"

text \<open>
  One comms platform (id 1) and one disruptor (id 9, a budget of one token), one bin, delay
  1; \<open>self\<close> is the entry of the adjacency matrix that relates the disruptor to itself.
  \<open>grid_sources\<close> shows a grid by the source ids of its cells.
\<close>

definition demo_jam :: "bool \<Rightarrow> (nat, real) Environment" where
  "demo_jam self = projr (Environment_init [[True, True], [True, self]]
                     [new_platform 1 100 True] [new_disruptor 9 1 1 10] 1 1 ''rr'' 0)"

definition grid_sources :: "('i, 'p) grid \<Rightarrow> 'i option list list" where
  "grid_sources g = map bin_sources g"

section \<open>Verification\<close>

subsection \<open>Bounded queues\<close>

lemma room_full: "qfull q \<Longrightarrow> room q xs = []"
  by (auto simp: room_def qfull_def)

lemma room_Nil [simp]: "room q [] = []"
  by (simp add: room_def)

lemma room_put: "\<not> qfull q \<Longrightarrow> room q (x # xs) = x # room (qput q y) xs"
  by (auto simp: room_def qfull_def qput_def take_Cons' nat_diff_distrib Suc_diff_le not_le
      split: if_splits)

lemma length_room:
  "length (room q xs) =
     (if 0 < maxsize q then min (nat (maxsize q) - length (items q)) (length xs) else length xs)"
  by (simp add: room_def min.commute)

lemma room_step:
  "maxsize q' = maxsize q \<Longrightarrow> length (items q') = length (items q) + length (room q [x]) \<Longrightarrow>
   room q [y] @ room q' ys = room q (y # ys)"
  by (auto simp: room_def take_Cons' split: if_splits)

subsection \<open>Reception: \<open>putData\<close>\<close>

lemma putData_one_frame [simp]:
  "platform_id (putData_one p e) = platform_id p"
  "elapsedTime (putData_one p e) = elapsedTime p"
  "doAck (putData_one p e) = doAck p"
  "maxsize (txQueue (putData_one p e)) = maxsize (txQueue p)"
  "maxsize (rxQueue (putData_one p e)) = maxsize (rxQueue p)"
  by (cases e; simp add: Let_def getNextMsgID_def txPacket_def qput_def split: prod.splits)+

lemma foldl_putData_one_rx_maxsize:
  "maxsize (rxQueue (foldl putData_one p es)) = maxsize (rxQueue p)"
  by (induction es arbitrary: p) (simp_all del: putData_one.simps)

lemma putData_one_rxQueue:
  "rxQueue (putData_one p e) =
     (case e of Packet h x m \<Rightarrow> if qfull (rxQueue p) then rxQueue p else qput (rxQueue p) x
      | _ \<Rightarrow> rxQueue p)"
  by (cases e) (auto simp: Let_def getNextMsgID_def txPacket_def split: prod.splits)

lemma foldl_putData_one_rx_items:
  "items (rxQueue (foldl putData_one p es)) =
     items (rxQueue p) @ room (rxQueue p) (plain_payloads es)"
proof (induction es arbitrary: p)
  case Nil
  show ?case by simp
next
  case (Cons e es)
  show ?case
  proof (cases e)
    case (Packet h x m)
    show ?thesis
    proof (cases "qfull (rxQueue p)")
      case True
      then show ?thesis
        by (simp add: Cons.IH putData_one_rxQueue Packet room_full del: putData_one.simps)
    next
      case False
      then show ?thesis
        by (simp add: Cons.IH putData_one_rxQueue Packet room_put [where y = x]
            del: putData_one.simps)
          (simp add: qput_def)
    qed
  next
    case (AckPacket h a m)
    then show ?thesis by (simp add: Cons.IH)
  next
    case (DisruptionToken h)
    then show ?thesis by (simp add: Cons.IH)
  qed
qed

text \<open>
  Claim C3. A batch that holds a \<open>DisruptionToken\<close> leaves the receive and the transmit
  queue of the platform as they were. A batch without one appends to the receive queue
  the payloads of its plain packets, in order, as long as the queue has room;
  acknowledgement packets contribute nothing to the receive queue.
\<close>

theorem putData_batch_kill:
  "(list_ex isDisruptionToken es \<longrightarrow>
      rxQueue (putData p es) = rxQueue p \<and> txQueue (putData p es) = txQueue p) \<and>
   (\<not> list_ex isDisruptionToken es \<longrightarrow>
      maxsize (rxQueue (putData p es)) = maxsize (rxQueue p) \<and>
      items (rxQueue (putData p es)) =
        items (rxQueue p) @ room (rxQueue p) (plain_payloads es))"
  by (simp add: putData_def foldl_putData_one_rx_items foldl_putData_one_rx_maxsize)

theorem putData_batch_kill_witness:
  "list_ex isDisruptionToken
     [Packet (demo_hdr 1 [2]) 5 1, DisruptionToken (demo_hdr 9 [2])] \<and>
   rxQueue (putData (new_platform 2 2 True)
     [Packet (demo_hdr 1 [2]) 5 1, DisruptionToken (demo_hdr 9 [2])])
     = rxQueue (new_platform 2 2 True) \<and>
   txQueue (putData (new_platform 2 2 True)
     [Packet (demo_hdr 1 [2]) 5 1, DisruptionToken (demo_hdr 9 [2])])
     = txQueue (new_platform 2 2 True) \<and>
   \<not> list_ex isDisruptionToken
     [Packet (demo_hdr 1 [2]) 5 1, AckPacket (demo_hdr 3 [2]) 4 2,
      Packet (demo_hdr 1 [2]) 6 3, Packet (demo_hdr 3 [2]) 7 4] \<and>
   items (rxQueue (putData (new_platform 2 2 True)
     [Packet (demo_hdr 1 [2]) 5 1, AckPacket (demo_hdr 3 [2]) 4 2,
      Packet (demo_hdr 1 [2]) 6 3, Packet (demo_hdr 3 [2]) 7 4])) = [5, 6]"
  using putData_batch_kill [of "[Packet (demo_hdr 1 [2]) 5 1, DisruptionToken (demo_hdr 9 [2])]"
      "new_platform 2 2 True"]
    putData_batch_kill [of "[Packet (demo_hdr 1 [2]) 5 1, AckPacket (demo_hdr 3 [2]) 4 2,
      Packet (demo_hdr 1 [2]) 6 3, Packet (demo_hdr 3 [2]) 7 4]" "new_platform 2 2 True"]
  by (simp add: new_platform_def CommsPlatform_init_def Queue_new_def room_def)

lemma putData_one_full:
  "qfull (rxQueue p) \<Longrightarrow> putData_one p e = p\<lparr>warned := warned p + length (plain_packets [e])\<rparr>"
  by (cases e) auto

lemma foldl_putData_one_full:
  "qfull (rxQueue p) \<Longrightarrow>
   foldl putData_one p es = p\<lparr>warned := warned p + length (plain_packets es)\<rparr>"
proof (induction es arbitrary: p)
  case Nil
  show ?case by simp
next
  case (Cons e es)
  have "qfull (rxQueue (putData_one p e))"
    using Cons.prems by (simp add: putData_one_full del: putData_one.simps)
  then show ?case
    using Cons.prems by (cases e) (simp_all add: Cons.IH)
qed

lemma acks_for_cong:
  "platform_id p = platform_id p' \<Longrightarrow> elapsedTime p = elapsedTime p' \<Longrightarrow>
   acks_for p k r = acks_for p' k r"
  by (induction r arbitrary: k) auto

lemma putData_one_accept:
  "\<not> qfull (rxQueue p) \<Longrightarrow>
   rxQueue (putData_one p (Packet h x m)) = qput (rxQueue p) x \<and>
   currentMsgID (putData_one p (Packet h x m)) = currentMsgID p + (if doAck p then 1 else 0) \<and>
   items (txQueue (putData_one p (Packet h x m))) =
     items (txQueue p) @
       room (txQueue p) (if doAck p then acks_for p (currentMsgID p) [(h, x, m)] else [])"
  by (auto simp: Let_def getNextMsgID_def txPacket_def qput_def room_def qfull_def
      split: prod.splits)

lemma foldl_putData_one_acks:
  "currentMsgID (foldl putData_one p es) =
     currentMsgID p + (if doAck p then int (length (accepted p es)) else 0) \<and>
   items (txQueue (foldl putData_one p es)) =
     items (txQueue p) @
       room (txQueue p) (if doAck p then acks_for p (currentMsgID p) (accepted p es) else [])"
proof (induction es arbitrary: p)
  case Nil
  show ?case by (simp add: accepted_def)
next
  case (Cons e es)
  show ?case
  proof (cases "qfull (rxQueue p)")
    case True
    then show ?thesis
      using foldl_putData_one_full [of p "e # es"] by (simp add: accepted_def room_full)
  next
    case nf: False
    show ?thesis
    proof (cases e)
      case (Packet h x m)
      let ?p' = "putData_one p (Packet h x m)"
      note acc = putData_one_accept [OF nf, of h x m]
      have a: "accepted p (e # es) = (h, x, m) # accepted ?p' es"
        using nf acc
        by (simp add: accepted_def Packet room_put [where y = x] del: putData_one.simps)
      show ?thesis
      proof (cases "doAck p")
        case True
        have "acks_for ?p' k r = acks_for p k r" for k r
          by (rule acks_for_cong) (simp_all del: putData_one.simps)
        moreover have "room (txQueue p) [y] @ room (txQueue ?p') ys = room (txQueue p) (y # ys)"
          for y ys
          by (rule room_step [where x = "AckPacket undefined m 0"])
            (use acc True in \<open>simp_all del: putData_one.simps add: length_room\<close>)
        ultimately show ?thesis
          using Cons.IH [of ?p'] acc a True by (simp del: putData_one.simps add: Packet)
      next
        case False
        then show ?thesis
          using Cons.IH [of ?p'] acc a by (simp del: putData_one.simps add: Packet)
      qed
    next
      case (AckPacket h a m)
      then show ?thesis by (simp add: Cons.IH accepted_def)
    next
      case (DisruptionToken h)
      then show ?thesis by (simp add: Cons.IH accepted_def)
    qed
  qed
qed

text \<open>
  Claim C10. For a batch without a \<open>DisruptionToken\<close>: while the receive queue is full,
  every plain packet costs one warning and nothing else changes (no payload is enqueued,
  no acknowledgement is built, no message id is consumed). In general the message ids
  consumed are one per packet whose payload was enqueued (none when \<open>doAck\<close> is off), and
  what is appended to the transmit queue is a prefix (as far as the transmit queue has
  room) of the acknowledgements of exactly those enqueued packets.
\<close>

theorem putData_no_ack_for_dropped:
  "\<not> list_ex isDisruptionToken es \<longrightarrow>
     (qfull (rxQueue p) \<longrightarrow>
        putData p es = p\<lparr>warned := warned p + length (plain_packets es)\<rparr>) \<and>
     currentMsgID (putData p es) =
       currentMsgID p + (if doAck p then int (length (accepted p es)) else 0) \<and>
     items (txQueue (putData p es)) =
       items (txQueue p) @
         room (txQueue p) (if doAck p then acks_for p (currentMsgID p) (accepted p es) else [])"
  using foldl_putData_one_acks [of p es] foldl_putData_one_full [of p es]
  by (simp add: putData_def)

theorem putData_no_ack_for_dropped_witness:
  "\<not> list_ex isDisruptionToken
     [Packet (demo_hdr 1 [2]) 5 7, Packet (demo_hdr 3 [2]) 6 4] \<and>
   \<not> qfull (rxQueue (new_platform 2 1 True)) \<and>
   items (rxQueue (putData (new_platform 2 1 True)
     [Packet (demo_hdr 1 [2]) 5 7, Packet (demo_hdr 3 [2]) 6 4])) = [5] \<and>
   currentMsgID (putData (new_platform 2 1 True)
     [Packet (demo_hdr 1 [2]) 5 7, Packet (demo_hdr 3 [2]) 6 4]) = 2 \<and>
   items (txQueue (putData (new_platform 2 1 True)
     [Packet (demo_hdr 1 [2]) 5 7, Packet (demo_hdr 3 [2]) 6 4])) =
     [AckPacket (demo_hdr 2 [1]) 7 1] \<and>
   qfull (rxQueue (putData (new_platform 2 1 True) [Packet (demo_hdr 1 [2]) 5 7])) \<and>
   putData (putData (new_platform 2 1 True) [Packet (demo_hdr 1 [2]) 5 7])
     [Packet (demo_hdr 3 [2]) 6 4] =
     (putData (new_platform 2 1 True) [Packet (demo_hdr 1 [2]) 5 7])\<lparr>warned := 1\<rparr>"
  using putData_no_ack_for_dropped [of "[Packet (demo_hdr 1 [2]) 5 7, Packet (demo_hdr 3 [2]) 6 4]"
      "new_platform 2 1 True"]
    putData_no_ack_for_dropped [of "[Packet (demo_hdr 3 [2]) 6 4]"
      "putData (new_platform 2 1 True) [Packet (demo_hdr 1 [2]) 5 7]"]
  by (simp add: new_platform_def CommsPlatform_init_def Queue_new_def room_def accepted_def
      putData_def qfull_def qput_def getNextMsgID_def txPacket_def demo_hdr_def)

subsection \<open>The token budget of a disruptor\<close>

lemma DisruptorPlatform_init_ok:
  "DisruptorPlatform_init i mt B spe p v a = Inr d \<Longrightarrow> disruptor_ok d"
  by (auto simp: DisruptorPlatform_init_def disruptor_ok_def split: if_splits)

lemma DisruptorPlatform_step_ok:
  assumes "disruptor_ok d"
  shows "\<exists>d'. DisruptorPlatform_step dT d = Inr d' \<and> disruptor_ok d' \<and>
           elapsedTimeSteps d' = elapsedTimeSteps d + 1 \<and>
           numMaxTokens d' = numMaxTokens d \<and>
           numTimeStepsPerEpoch d' = numTimeStepsPerEpoch d \<and>
           numTokensRemaining d' =
             (if elapsedTimeSteps d' mod numTimeStepsPerEpoch d' = 0 then numMaxTokens d
              else numTokensRemaining d)"
  using assms
  by (auto simp: DisruptorPlatform_step_def Platform_step_def disruptor_ok_def Let_def)

lemma occupied_replicate [simp]: "occupied (replicate n None) = 0"
  by (simp add: occupied_def)

lemma occupied_update_one:
  "i < n \<Longrightarrow> occupied ((replicate n None)[i := Some x]) = 1"
  by (induction n arbitrary: i) (auto simp: occupied_def split: nat.splits)

lemma getDisruptions_ok:
  assumes "disruptor_ok d"
  shows "\<exists>toks d'. getDisruptions d r = Inr (toks, d') \<and> disruptor_ok d' \<and>
           numTokensRemaining d' = numTokensRemaining d - min (numTokensRemaining d) 1 \<and>
           occupied toks = nat (min (numTokensRemaining d) 1) \<and>
           length toks = nat (numFrequencyBins d)"
proof (cases "numTokensRemaining d = 0")
  case True
  then show ?thesis
    using assms
    by (simp add: getDisruptions_def random_sample_def disruptor_ok_def Let_def)
next
  case False
  with assms have "1 \<le> numTokensRemaining d" by (simp add: disruptor_ok_def)
  moreover have "r mod nat (numFrequencyBins d) < nat (numFrequencyBins d)"
    using assms by (simp add: disruptor_ok_def)
  ultimately show ?thesis
    using assms
    by (simp add: getDisruptions_def random_sample_def disruptor_ok_def Let_def
        occupied_update_one min_def)
qed

lemma disruptor_run_ok:
  "disruptor_ok d \<Longrightarrow> \<exists>d'. disruptor_run d ops = Inr d' \<and> disruptor_ok d'"
proof (induction ops arbitrary: d)
  case Nil
  then show ?case by simp
next
  case (Cons a ops)
  show ?case
  proof (cases a)
    case (DStep dT)
    from DisruptorPlatform_step_ok [OF Cons.prems, of dT] obtain d1
      where "DisruptorPlatform_step dT d = Inr d1" "disruptor_ok d1" by blast
    with Cons.IH [of d1] DStep show ?thesis by simp
  next
    case (DGetDisruptions r)
    from getDisruptions_ok [OF Cons.prems, of r] obtain toks d1
      where "getDisruptions d r = Inr (toks, d1)" "disruptor_ok d1" by blast
    with Cons.IH [of d1] DGetDisruptions show ?thesis by simp
  qed
qed

text \<open>
  Claim C8. Take a disruptor as its constructor returns it and let it run through any
  sequence of \<^verbatim>\<open>step\<close> and \<^verbatim>\<open>getDisruptions\<close> calls. No call raises, and in the state \<open>d\<close>
  reached: the remaining tokens are not negative; a call of \<^verbatim>\<open>getDisruptions\<close> places
  \<open>min(numTokensRemaining, 1)\<close> tokens and lowers the budget by exactly that number; a
  call of \<^verbatim>\<open>step\<close> increments the step counter and, when the incremented counter is a
  multiple of \<open>numTimeStepsPerEpoch\<close>, sets the budget to \<open>numMaxTokens\<close>, which is what the
  \<^verbatim>\<open>getDisruptions\<close> call of that step then starts from; otherwise it leaves the budget
  alone. (\<^verbatim>\<open>Environment.step\<close> calls \<^verbatim>\<open>step\<close> on every disruptor before it calls
  \<^verbatim>\<open>getDisruptions\<close> on any.)
\<close>

theorem token_budget:
  assumes "DisruptorPlatform_init i mt B spe p v a = Inr d0"
  shows "\<exists>d. disruptor_run d0 ops = Inr d \<and> 0 \<le> numTokensRemaining d \<and>
     (\<exists>toks d2. getDisruptions d r = Inr (toks, d2) \<and>
        numTokensRemaining d2 = numTokensRemaining d - min (numTokensRemaining d) 1 \<and>
        occupied toks = nat (min (numTokensRemaining d) 1)) \<and>
     (\<exists>d'. DisruptorPlatform_step dT d = Inr d' \<and>
        elapsedTimeSteps d' = elapsedTimeSteps d + 1 \<and>
        (elapsedTimeSteps d' mod numTimeStepsPerEpoch d' = 0 \<longrightarrow>
           numTokensRemaining d' = numMaxTokens d' \<and>
           (\<exists>toks d''. getDisruptions d' r' = Inr (toks, d'') \<and>
              numTokensRemaining d'' = numMaxTokens d' - min (numMaxTokens d') 1 \<and>
              occupied toks = nat (min (numMaxTokens d') 1))) \<and>
        (elapsedTimeSteps d' mod numTimeStepsPerEpoch d' \<noteq> 0 \<longrightarrow>
           numTokensRemaining d' = numTokensRemaining d))"
proof -
  from disruptor_run_ok [OF DisruptorPlatform_init_ok [OF assms], of ops] obtain d
    where d: "disruptor_run d0 ops = Inr d" "disruptor_ok d" by blast
  from getDisruptions_ok [OF d(2), of r] obtain toks d2
    where d2: "getDisruptions d r = Inr (toks, d2)"
      "numTokensRemaining d2 = numTokensRemaining d - min (numTokensRemaining d) 1"
      "occupied toks = nat (min (numTokensRemaining d) 1)" by blast
  from DisruptorPlatform_step_ok [OF d(2), of dT] obtain d'
    where d': "DisruptorPlatform_step dT d = Inr d'" "disruptor_ok d'"
      "elapsedTimeSteps d' = elapsedTimeSteps d + 1"
      "numMaxTokens d' = numMaxTokens d"
      "numTokensRemaining d' =
             (if elapsedTimeSteps d' mod numTimeStepsPerEpoch d' = 0 then numMaxTokens d
              else numTokensRemaining d)" by blast
  from getDisruptions_ok [OF d'(2), of r'] obtain toks' d''
    where d'': "getDisruptions d' r' = Inr (toks', d'')"
      "numTokensRemaining d'' = numTokensRemaining d' - min (numTokensRemaining d') 1"
      "occupied toks' = nat (min (numTokensRemaining d') 1)" by blast
  have "0 \<le> numTokensRemaining d"
    using d(2) by (simp add: disruptor_ok_def)
  with d d2 d' d'' show ?thesis
    by auto
qed

theorem token_budget_witness:
  "DisruptorPlatform_init (1::nat) 1 10 2 (0, 0, 0) (0, 0, 0) (0, 0, 0) = Inr (new_disruptor 1 1 10 2) \<and>
   (\<exists>d. disruptor_run (new_disruptor 1 1 10 2) [DStep (1/4), DGetDisruptions 3] = Inr d \<and>
      numTokensRemaining d = 0 \<and> elapsedTimeSteps d = 1 \<and>
      (\<exists>d'. DisruptorPlatform_step (1/4) d = Inr d' \<and> elapsedTimeSteps d' = 2 \<and>
         numTokensRemaining d' = 1)) \<and>
   (\<exists>d. disruptor_run (new_disruptor 1 1 10 2) [DStep (1/4), DGetDisruptions 3] = Inr d \<and>
      0 \<le> numTokensRemaining d \<and>
      (\<exists>toks d2. getDisruptions d 0 = Inr (toks, d2) \<and>
        numTokensRemaining d2 = numTokensRemaining d - min (numTokensRemaining d) 1 \<and>
        occupied toks = nat (min (numTokensRemaining d) 1)) \<and>
      (\<exists>d'. DisruptorPlatform_step (1/4) d = Inr d' \<and>
        elapsedTimeSteps d' = elapsedTimeSteps d + 1 \<and>
        (elapsedTimeSteps d' mod numTimeStepsPerEpoch d' = 0 \<longrightarrow>
           numTokensRemaining d' = numMaxTokens d' \<and>
           (\<exists>toks d''. getDisruptions d' 7 = Inr (toks, d'') \<and>
              numTokensRemaining d'' = numMaxTokens d' - min (numMaxTokens d') 1 \<and>
              occupied toks = nat (min (numMaxTokens d') 1))) \<and>
        (elapsedTimeSteps d' mod numTimeStepsPerEpoch d' \<noteq> 0 \<longrightarrow>
           numTokensRemaining d' = numTokensRemaining d)))"
proof -
  have i: "DisruptorPlatform_init (1::nat) 1 10 2 (0, 0, 0) (0, 0, 0) (0, 0, 0)
      = Inr (new_disruptor 1 1 10 2)"
    by (simp add: new_disruptor_def DisruptorPlatform_init_def)
  have r: "\<exists>d. disruptor_run (new_disruptor 1 1 10 2) [DStep (1/4), DGetDisruptions 3] = Inr d \<and>
      numTokensRemaining d = 0 \<and> elapsedTimeSteps d = 1 \<and>
      (\<exists>d'. DisruptorPlatform_step (1/4) d = Inr d' \<and> elapsedTimeSteps d' = 2 \<and>
         numTokensRemaining d' = 1)"
    by (simp add: new_disruptor_def DisruptorPlatform_init_def DisruptorPlatform_step_def
        Platform_step_def getDisruptions_def random_sample_def Let_def)
  show ?thesis
    by (rule conjI [OF i conjI [OF r
          token_budget [OF i, of "[DStep (1/4), DGetDisruptions 3]" 0 "1/4" 7]]])
qed

subsection \<open>The coordinator drains each platform at most once\<close>

lemma getData_None: "getData p = (None, p') \<Longrightarrow> p' = p"
  by (auto simp: getData_def split: list.splits)

lemma with_platform_Inr:
  "with_platform p r = Inr (tx, qs) \<longleftrightarrow> (\<exists>ps. r = Inr (tx, ps) \<and> qs = p # ps)"
  by (auto simp: with_platform_def split: sum.splits)

lemma drained_refl [simp]: "drained tx p p"
  by (simp add: drained_def)

lemma list_all2_drained_refl [simp]: "list_all2 (drained tx) ps ps"
  by (simp add: list_all2_refl)

lemma rr_loop_drains:
  "rr_loop B ps index tx = Inr (tx', ps') \<Longrightarrow>
   length tx' = length tx \<and> (\<forall>j<index. tx' ! j = tx ! j) \<and> list_all2 (drained tx') ps ps'"
proof (induction B ps index tx arbitrary: tx' ps' rule: rr_loop.induct)
  case (1 B index txPackets)
  then show ?case by simp
next
  case (2 B p ps index txPackets)
  obtain theData p1 where g: "getData p = (theData, p1)" by (cases "getData p")
  show ?case
  proof (cases theData)
    case None
    with g have p1: "p1 = p" by (simp add: getData_None)
    show ?thesis
    proof (cases "int index = B")
      case True
      with "2.prems" g None p1 show ?thesis by simp
    next
      case False
      with "2.prems" g None obtain qs where
        r: "rr_loop B ps index txPackets = Inr (tx', qs)" and ps': "ps' = p1 # qs"
        by (auto simp: with_platform_Inr)
      from "2.IH"(1) [OF g [symmetric] _ False r] None g
      show ?thesis using ps' p1 by simp
    qed
  next
    case (Some d)
    from "2.prems" g Some have lt: "index < length txPackets"
      by (auto split: if_splits)
    show ?thesis
    proof (cases "int (index + 1) = B")
      case True
      with "2.prems" g Some lt have "tx' = txPackets[index := Some d]" "ps' = p1 # ps"
        by auto
      moreover from lt g Some have "drained (txPackets[index := Some d]) p p1"
        by (auto simp: drained_def set_update_memI)
      ultimately show ?thesis
        by simp
    next
      case False
      with "2.prems" g Some lt obtain qs where
        r: "rr_loop B ps (index + 1) (txPackets[index := Some d]) = Inr (tx', qs)"
        and ps': "ps' = p1 # qs"
        by (auto simp: with_platform_Inr)
      from "2.IH"(2) [OF g [symmetric] Some lt False r] Some g
      have ih: "length tx' = length txPackets" "\<forall>j<index + 1. tx' ! j = txPackets[index := Some d] ! j"
        "list_all2 (drained tx') ps qs"
        by auto
      from ih(2) lt have "tx' ! index = Some d" by simp
      with ih(1) lt have "Some d \<in> set tx'"
        by (metis nth_mem)
      with g Some have "drained tx' p p1"
        by (auto simp: drained_def)
      with ih ps' lt show ?thesis
        by simp
    qed
  qed
qed

lemma fdma_loop_drains:
  "fdma_loop ps index tx = Inr (tx', ps') \<Longrightarrow>
   length tx' = length tx \<and> (\<forall>j<index. tx' ! j = tx ! j) \<and> list_all2 (drained tx') ps ps'"
proof (induction ps index tx arbitrary: tx' ps' rule: fdma_loop.induct)
  case (1 index txPackets)
  then show ?case by simp
next
  case (2 p ps index txPackets)
  obtain theData p1 where g: "getData p = (theData, p1)" by (cases "getData p")
  from "2.prems" g have lt: "index < length txPackets"
    by (auto split: if_splits)
  with "2.prems" g obtain qs where
    r: "fdma_loop ps (index + 1) (txPackets[index := theData]) = Inr (tx', qs)"
    and ps': "ps' = p1 # qs"
    by (auto simp: with_platform_Inr)
  from "2.IH" [OF g [symmetric] lt r]
  have ih: "length tx' = length txPackets"
    "\<forall>j<index + 1. tx' ! j = txPackets[index := theData] ! j"
    "list_all2 (drained tx') ps qs"
    by auto
  from ih(2) lt have "tx' ! index = theData" by simp
  with ih(1) lt have "theData \<in> set tx'"
    by (metis nth_mem)
  with g have "drained tx' p p1"
    by (cases theData) (auto simp: drained_def getData_None)
  with ih ps' lt show ?case
    by simp
qed

lemma stepTDMA_drains:
  "stepTDMA c ps = Inr (tx, ps', c') \<Longrightarrow> list_all2 (drained tx) ps ps'"
proof -
  assume a: "stepTDMA c ps = Inr (tx, ps', c')"
  then have lt: "TDMAindex c < length ps"
    by (auto simp: stepTDMA_def split: if_splits)
  obtain theData p1 where g: "getData (ps ! TDMAindex c) = (theData, p1)"
    by (cases "getData (ps ! TDMAindex c)")
  with a lt have e: "tx = [theData]" "ps' = ps[TDMAindex c := p1]"
    by (auto simp: stepTDMA_def split: if_splits)
  from g have "drained [theData] (ps ! TDMAindex c) p1"
    by (cases theData) (auto simp: drained_def getData_None)
  with lt e show ?thesis
    by (auto simp: list_all2_conv_all_nth nth_list_update)
qed

lemma assign_bins_nth:
  "assign_bins ids ps b row = Inr row' \<Longrightarrow>
   length row' = length row \<and>
   (\<forall>j<length row. \<forall>d. row ! j = Some d \<longrightarrow>
      (\<exists>v. row' ! j = Some (map_hdr (\<lambda>h. h\<lparr>freqBin := b + j, position := v\<rparr>) d)))"
proof (induction ids ps b row arbitrary: row' rule: assign_bins.induct)
  case (1 ids ps binIndex)
  then show ?case by simp
next
  case (2 ids ps binIndex row)
  from "2.prems" obtain r where r: "assign_bins ids ps (binIndex + 1) row = Inr r" "row' = None # r"
    by (auto split: sum.splits)
  from "2.IH" [OF r(1)] r(2) show ?case
    by (auto simp: nth_Cons split: nat.splits)
next
  case (3 ids ps binIndex packet row)
  from "3.prems" obtain k r where k: "index_of ids (sourceID (hdr packet)) = Some k" "k < length ps"
    and r: "assign_bins ids ps (binIndex + 1) row = Inr r"
      "row' = Some (map_hdr (\<lambda>h. h\<lparr>freqBin := binIndex, position := Some (pos (ps ! k))\<rparr>) packet) # r"
    by (auto split: sum.splits option.splits if_splits)
  from "3.IH" [OF k(1) _ r(1)] k(2) r(2) show ?case
    by (auto simp: nth_Cons split: nat.splits)
qed

lemma assign_bins_placed:
  "assign_bins ids ps 0 row = Inr row' \<Longrightarrow> Some d \<in> set row \<Longrightarrow> placed d row'"
  using assign_bins_nth [of ids ps 0 row row']
  by (auto simp: placed_def in_set_conv_nth)

lemma CommsCoordinator_step_drains:
  assumes "CommsCoordinator_step c ps = Inr (tx, ps', c')"
  shows "list_all2 (\<lambda>p p'. p' = p \<or> (\<exists>d. getData p = (Some d, p') \<and> placed d tx)) ps ps'"
proof -
  from assms obtain tx0 where
    pol: "list_all2 (drained tx0) ps ps'" and
    asg: "assign_bins (platformIDs c') ps' 0 tx0 = Inr tx"
    by (auto simp: CommsCoordinator_step_def stepRoundRobin_def stepFDMA_def
        split: if_splits sum.splits
        dest: rr_loop_drains fdma_loop_drains stepTDMA_drains)
  show ?thesis
    by (rule list_all2_mono [OF pol]) (auto simp: drained_def dest: assign_bins_placed [OF asg])
qed

lemma demo_rr:
  "\<exists>tx ps' c'. CommsCoordinator_step (projr (CommsCoordinator_init demo4 2 ''rr'')) demo4 = Inr (tx, ps', c')
     \<and> length tx = 2 \<and> occupied tx = 2 \<and> bin_sources tx = [Some 1, Some 2]
     \<and> map (\<lambda>p. length (items (txQueue p))) ps' = [0, 0, 1, 1]
     \<and> drop 2 ps' = drop 2 demo4
     \<and> (\<exists>tx2 ps2 c2. CommsCoordinator_step c' ps' = Inr (tx2, ps2, c2)
          \<and> bin_sources tx2 = [Some 3, Some 4]
          \<and> map (\<lambda>p. length (items (txQueue p))) ps2 = [0, 0, 0, 0])"
  by (simp add: demo4_def new_platform_def CommsPlatform_init_def CommsCoordinator_init_def
      CommsCoordinator_step_def stepRoundRobin_def txData_def getNextMsgID_def txPacket_def
      Queue_new_def qfull_def qput_def getData_def with_platform_def occupied_def bin_sources_def
      numeral_2_eq_2)

text \<open>
  Claim C5. Whatever the policy, a coordinator step that returns bins leaves every
  platform either untouched or without the head of its transmit queue, and in the
  latter case that packet is in one of the returned bins (with its bin index and a
  position assigned). Round robin with two bins over four platforms that hold one packet
  each: the packets of the first two platforms fill the two bins, the other two
  platforms keep theirs, and the next step takes exactly those.
\<close>

theorem single_drain_per_step:
  "(CommsCoordinator_step c ps = Inr (tx, ps', c') \<longrightarrow>
      list_all2 (\<lambda>p p'. p' = p \<or> (\<exists>d. getData p = (Some d, p') \<and> placed d tx)) ps ps') \<and>
   (\<exists>tx ps' c'.
      CommsCoordinator_step (projr (CommsCoordinator_init demo4 2 ''rr'')) demo4 = Inr (tx, ps', c')
      \<and> length tx = 2 \<and> occupied tx = 2 \<and> bin_sources tx = [Some 1, Some 2]
      \<and> map (\<lambda>p. length (items (txQueue p))) ps' = [0, 0, 1, 1]
      \<and> drop 2 ps' = drop 2 demo4
      \<and> (\<exists>tx2 ps2 c2. CommsCoordinator_step c' ps' = Inr (tx2, ps2, c2)
           \<and> bin_sources tx2 = [Some 3, Some 4]
           \<and> map (\<lambda>p. length (items (txQueue p))) ps2 = [0, 0, 0, 0]))"
  using CommsCoordinator_step_drains [of c ps tx ps' c'] demo_rr by blast

theorem single_drain_per_step_witness:
  "\<exists>tx ps' c'.
      CommsCoordinator_step (projr (CommsCoordinator_init demo4 2 ''rr'')) demo4 = Inr (tx, ps', c') \<and>
      list_all2 (\<lambda>p p'. p' = p \<or> (\<exists>d. getData p = (Some d, p') \<and> placed d tx)) demo4 ps'"
proof -
  from demo_rr obtain tx ps' c' where
    s: "CommsCoordinator_step (projr (CommsCoordinator_init demo4 2 ''rr'')) demo4 = Inr (tx, ps', c')"
    by blast
  from single_drain_per_step [of "projr (CommsCoordinator_init demo4 2 ''rr'')" demo4 tx ps' c'] s
  have "list_all2 (\<lambda>p p'. p' = p \<or> (\<exists>d. getData p = (Some d, p') \<and> placed d tx)) demo4 ps'"
    by blast
  with s show ?thesis by blast
qed

subsection \<open>Construction and the medium access method\<close>

lemma ebind_Inr_iff: "ebind m f = Inr y \<longleftrightarrow> (\<exists>x. m = Inr x \<and> f x = Inr y)"
  by (cases m) (auto simp: ebind_def)

lemma ebind_Inr [simp]: "ebind (Inr x) f = f x"
  by (simp add: ebind_def)

lemma ebind_Inl [simp]: "ebind (Inl e) f = Inl e"
  by (simp add: ebind_def)

lemma emap_cong_strong:
  "(\<And>x. x \<in> set xs \<Longrightarrow> f x = g x) \<Longrightarrow> emap f xs = emap g xs"
  by (induction xs) (simp_all cong: sum.case_cong)

lemma updatePlatformConnectivity_coordinator:
  "updatePlatformConnectivity (e\<lparr>coordinator := cs\<rparr>) =
     (case updatePlatformConnectivity e of Inl x \<Rightarrow> Inl x | Inr e' \<Rightarrow> Inr (e'\<lparr>coordinator := cs\<rparr>))"
  by (auto simp: updatePlatformConnectivity_def connectivity_def indexToID_def ebind_def
      split: sum.splits)

lemma updatePlatformConnectivity_frame:
  "updatePlatformConnectivity e = Inr e' \<Longrightarrow>
     coordinator e' = coordinator e \<and> data e' = data e \<and> dataQueue e' = dataQueue e \<and>
     adjMatrix e' = adjMatrix e \<and> commsPlatformIDs e' = commsPlatformIDs e \<and>
     disruptorPlatformIDs e' = disruptorPlatformIDs e \<and>
     numCommsPlatforms e' = numCommsPlatforms e \<and>
     numDisruptorPlatforms e' = numDisruptorPlatforms e \<and>
     trafficTx e' = trafficTx e \<and> trafficRx e' = trafficRx e \<and>
     windowSize e' = windowSize e \<and> elapsedTime_e e' = elapsedTime_e e \<and>
     numFrequencyBins_e e' = numFrequencyBins_e e \<and> disruptorDelay e' = disruptorDelay e"
  by (auto simp: updatePlatformConnectivity_def ebind_Inr_iff)

lemma updatePlatformConnectivity_coordinator_ex:
  "updatePlatformConnectivity e = Inr e1 \<Longrightarrow>
   \<exists>e2. updatePlatformConnectivity (e\<lparr>coordinator := cs\<rparr>) = Inr e2"
  by (simp add: updatePlatformConnectivity_coordinator)

lemma init_any_mac:
  assumes "Environment_init adj cps dps B d m w = Inr e"
  shows "\<exists>e'. Environment_init adj cps dps B d m' w = Inr e'"
proof -
  from assms have B: "\<not> B < 1"
    by (auto simp: Environment_init_def Let_def split: if_splits)
  show ?thesis
    using assms B
    unfolding Environment_init_def Let_def CommsCoordinator_init_def
    apply (simp split: if_splits)
    apply (drule updatePlatformConnectivity_coordinator_ex
        [where cs = "[\<lparr>platformIDs = map platform_id cps, numPlatforms = length cps,
                       numFrequencyBins_c = B, mac = m', TDMAindex = 0\<rparr>]"])
    apply simp
    done
qed

lemma emap_Inr_length: "emap f xs = Inr ys \<Longrightarrow> length ys = length xs"
  by (induction xs arbitrary: ys) (auto split: sum.splits)

lemma emap_Inr_nth:
  "emap f xs = Inr ys \<Longrightarrow> i < length xs \<Longrightarrow> f (xs ! i) = Inr (ys ! i)"
  by (induction xs arbitrary: ys i) (auto split: sum.splits simp: nth_Cons split: nat.splits)

lemma updatePlatformConnectivity_platforms:
  assumes "updatePlatformConnectivity e = Inr e'"
  shows "length (commsPlatforms e') = length (commsPlatforms e) \<and>
         length (disruptorPlatforms e') = length (disruptorPlatforms e) \<and>
         (\<forall>i<length (commsPlatforms e).
            \<exists>ids. commsPlatforms e' ! i = (commsPlatforms e ! i)\<lparr>destIDs := ids\<rparr>) \<and>
         (\<forall>i<length (disruptorPlatforms e).
            \<exists>ids. disruptorPlatforms e' ! i = (disruptorPlatforms e ! i)\<lparr>commsDestIDs := ids\<rparr>)"
proof -
  from assms obtain cps dps where
    c: "emap (\<lambda>(pIndex, p). ebind (connectivity e pIndex) (\<lambda>ids. Inr (p\<lparr>destIDs := ids\<rparr>)))
              (enumerate 0 (commsPlatforms e)) = Inr cps" and
    d: "emap (\<lambda>(pIndex, p). ebind (connectivity e (pIndex + numCommsPlatforms e))
                                   (\<lambda>ids. Inr (p\<lparr>commsDestIDs := ids\<rparr>)))
              (enumerate 0 (disruptorPlatforms e)) = Inr dps" and
    e': "e' = e\<lparr>commsPlatforms := cps, disruptorPlatforms := dps\<rparr>"
    by (auto simp: updatePlatformConnectivity_def ebind_Inr_iff)
  have "\<exists>ids. cps ! i = (commsPlatforms e ! i)\<lparr>destIDs := ids\<rparr>" if "i < length (commsPlatforms e)" for i
    using emap_Inr_nth [OF c, of i] that by (auto simp: nth_enumerate_eq ebind_Inr_iff) metis
  moreover have "\<exists>ids. dps ! i = (disruptorPlatforms e ! i)\<lparr>commsDestIDs := ids\<rparr>"
    if "i < length (disruptorPlatforms e)" for i
    using emap_Inr_nth [OF d, of i] that by (auto simp: nth_enumerate_eq ebind_Inr_iff) metis
  ultimately show ?thesis
    using emap_Inr_length [OF c] emap_Inr_length [OF d] e' by simp
qed

lemma init_coordinator:
  assumes "Environment_init adj cps dps B d m w = Inr e"
  shows "coordinator e = [\<lparr>platformIDs = map platform_id cps, numPlatforms = length cps,
                       numFrequencyBins_c = B, mac = m, TDMAindex = 0\<rparr>] \<and> 1 \<le> B"
  using assms
  unfolding Environment_init_def Let_def CommsCoordinator_init_def
  by (auto split: if_splits dest!: updatePlatformConnectivity_frame)

lemma env_step_bad_coordinator:
  assumes "coordinator e = [c]"
    and "\<And>ps :: ('i, 'p) CommsPlatform list. CommsCoordinator_step c ps = Inl ValueError"
  shows "isl (Environment_step (e :: ('i, 'p) Environment) dT rnd)"
proof (cases "Environment_step e dT rnd")
  case (Inl a)
  then show ?thesis by simp
next
  case (Inr e')
  then show ?thesis
    unfolding Environment_step_def Let_def
    by (auto simp: ebind_Inr_iff assms dest!: updatePlatformConnectivity_frame)
qed

lemma run_bad_coordinator:
  assumes "run e h acts = Inr (e', h')" "coordinator e = [c]"
    and "\<And>ps :: ('i, 'p) CommsPlatform list. CommsCoordinator_step c ps = Inl ValueError"
  shows "coordinator (e' :: ('i, 'p) Environment) = [c] \<and> h' = h \<and> (\<forall>dT rnd. Step dT rnd \<notin> set acts)"
  using assms(1,2)
proof (induction acts arbitrary: e h)
  case Nil
  then show ?case by simp
next
  case (Cons a acts)
  show ?case
  proof (cases a)
    case (TxData k x ds)
    with Cons.prems Cons.IH [of "user_txData e k x ds" h] show ?thesis
      by (simp add: user_txData_def)
  next
    case (RxData k)
    with Cons.prems Cons.IH [of "snd (user_rxData e k)" h] show ?thesis
      by (simp add: user_rxData_def split: prod.splits)
  next
    case (SetAdjMatrix m)
    with Cons.prems Cons.IH [of "e\<lparr>adjMatrix := m\<rparr>" h] show ?thesis by simp
  next
    case (Step dT rnd)
    from env_step_bad_coordinator [OF Cons.prems(2) assms(3), of dT rnd] Cons.prems(1) Step
    show ?thesis by (auto split: sum.splits)
  qed
qed

lemma init_bad_coordinator:
  assumes "Environment_init adj cps dps B d m w = Inr (e :: ('i, 'p) Environment)"
    "bad_mac m B (length cps)"
  shows "\<exists>c. coordinator e = [c] \<and>
           (\<forall>ps :: ('i, 'p) CommsPlatform list. CommsCoordinator_step c ps = Inl ValueError)"
  using assms(2) init_coordinator [OF assms(1)]
  by (auto simp: CommsCoordinator_step_def bad_mac_def stepTDMA_def stepFDMA_def)

lemma coordinator_bad_mac_all:
  assumes "1 \<le> B" "bad_mac m B (length ps)"
  shows "\<exists>c. CommsCoordinator_init ps B m = Inr c \<and>
           (\<forall>ps' :: ('i, 'q) CommsPlatform list. CommsCoordinator_step c ps' = Inl ValueError)"
  using assms
  by (auto simp: CommsCoordinator_init_def CommsCoordinator_step_def bad_mac_def stepTDMA_def
      stepFDMA_def)

text \<open>
  Claim C4, as stated, fails: the constructors never look at the medium access method.
  An environment for three platforms is constructed with TDMA and two bins, with FDMA
  and two bins, and with a method name that does not exist.
\<close>

theorem construction_accepts_bad_mac:
  "\<not> isl (Environment_init (replicate 3 (replicate 3 True))
            [new_platform 1 100 True, new_platform 2 100 True, new_platform 3 100 True]
            ([] :: (nat, real) DisruptorPlatform list) 2 1 ''tdma'' 0) \<and>
   \<not> isl (Environment_init (replicate 3 (replicate 3 True))
            [new_platform 1 100 True, new_platform 2 100 True, new_platform 3 100 True]
            ([] :: (nat, real) DisruptorPlatform list) 2 1 ''fdma'' 0) \<and>
   \<not> isl (Environment_init (replicate 3 (replicate 3 True))
            [new_platform 1 100 True, new_platform 2 100 True, new_platform 3 100 True]
            ([] :: (nat, real) DisruptorPlatform list) 10 1 ''csma'' 0)"
  by code_simp

text \<open>
  Claim C4, amended. Whether construction succeeds does not depend on the medium access
  method. In a configuration the policy cannot run in (\<open>bad_mac\<close>), every call of
  \<^verbatim>\<open>CommsCoordinator.step\<close> raises \<^verbatim>\<open>ValueError\<close>, whatever the platforms hold. The
  environment is constructed all the same, and then no call of \<^verbatim>\<open>Environment.step\<close>
  returns: a session that returns holds no step, and in the state it reaches (after any
  calls of \<^verbatim>\<open>txData\<close> and \<^verbatim>\<open>rxData\<close> and assignments of the adjacency matrix) a step
  raises.
\<close>

theorem mac_errors_raised_by_step:
  "(Environment_init adj cps dps B d m w = Inr e0 \<longrightarrow>
      (\<exists>e'. Environment_init adj cps dps B d m' w = Inr e') \<and>
      (bad_mac m B (length cps) \<and> run e0 [] acts = Inr (e, h) \<longrightarrow>
         (\<forall>deltaT r. Step deltaT r \<notin> set acts) \<and> h = [] \<and> isl (Environment_step e dT rnd))) \<and>
   (1 \<le> B \<and> bad_mac m B (length ps) \<longrightarrow>
      (\<exists>c. CommsCoordinator_init ps B m = Inr c \<and>
           (\<forall>ps' :: ('i, 'p) CommsPlatform list. CommsCoordinator_step c ps' = Inl ValueError)))"
proof (intro conjI impI)
  assume i: "Environment_init adj cps dps B d m w = Inr e0"
  from init_any_mac [OF i] show "\<exists>e'. Environment_init adj cps dps B d m' w = Inr e'" .
next
  assume i: "Environment_init adj cps dps B d m w = Inr e0"
    and b: "bad_mac m B (length cps) \<and> run e0 [] acts = Inr (e, h)"
  from init_bad_coordinator [OF i] b obtain c where
    c: "coordinator e0 = [c]" "\<And>ps :: ('a, 'b) CommsPlatform list. CommsCoordinator_step c ps = Inl ValueError"
    by blast
  from b have r: "run e0 [] acts = Inr (e, h)" by simp
  note rb = run_bad_coordinator [OF r c(1) c(2)]
  from rb show "\<forall>deltaT r. Step deltaT r \<notin> set acts" by simp
  from rb show "h = []" by simp
  from rb have "coordinator e = [c]" by simp
  from env_step_bad_coordinator [OF this c(2)] show "isl (Environment_step e dT rnd)" .
next
  assume "1 \<le> B \<and> bad_mac m B (length ps)"
  then show "\<exists>c. CommsCoordinator_init ps B m = Inr c \<and>
           (\<forall>ps' :: ('i, 'p) CommsPlatform list. CommsCoordinator_step c ps' = Inl ValueError)"
    using coordinator_bad_mac_all [of B m ps] by simp
qed

theorem mac_errors_raised_by_step_witness:
  "Environment_init (replicate 3 (replicate 3 True))
     [new_platform 1 100 True, new_platform 2 100 True, new_platform 3 100 True]
     [] 2 1 ''tdma'' 0 = Inr (demo_env_with ''tdma'' 2) \<and>
   bad_mac ''tdma'' 2 3 \<and>
   run (demo_env_with ''tdma'' 2) [] [TxData 0 (7/10) [2]] =
     Inr (user_txData (demo_env_with ''tdma'' 2) 0 (7/10) [2], []) \<and>
   isl (Environment_step (user_txData (demo_env_with ''tdma'' 2) 0 (7/10) [2]) (1/4) (\<lambda>k. 0)) \<and>
   Environment_step (user_txData (demo_env_with ''tdma'' 2) 0 (7/10) [2]) (1/4) (\<lambda>k. 0)
     = Inl ValueError \<and>
   Environment_step (demo_env_with ''tdma'' 2) (1/4) (\<lambda>k. 0) = Inl ValueError \<and>
   Environment_step (demo_env_with ''fdma'' 2) (1/4) (\<lambda>k. 0) = Inl ValueError \<and>
   Environment_step (demo_env_with ''csma'' 10) (1/4) (\<lambda>k. 0) = Inl ValueError"
proof -
  let ?e = "user_txData (demo_env_with ''tdma'' 2) 0 (7/10) [2]"
  have i: "Environment_init (replicate 3 (replicate 3 True))
     [new_platform 1 100 True, new_platform 2 100 True, new_platform 3 100 True]
     [] 2 1 ''tdma'' 0 = Inr (demo_env_with ''tdma'' 2)"
    by code_simp
  have b: "bad_mac ''tdma'' 2 (length [new_platform 1 100 True, new_platform 2 100 True,
      new_platform 3 100 True])"
    by (simp add: bad_mac_def)
  have r: "run (demo_env_with ''tdma'' 2) [] [TxData 0 (7/10) [2]] = Inr (?e, [])"
    by simp
  have s: "Environment_step ?e (1/4) (\<lambda>k. 0) = Inl ValueError"
    "Environment_step (demo_env_with ''tdma'' 2) (1/4) (\<lambda>k. 0) = Inl ValueError"
    "Environment_step (demo_env_with ''fdma'' 2) (1/4) (\<lambda>k. 0) = Inl ValueError"
    "Environment_step (demo_env_with ''csma'' 10) (1/4) (\<lambda>k. 0) = Inl ValueError"
    by code_simp+
  from mac_errors_raised_by_step [of "replicate 3 (replicate 3 True)"
      "[new_platform 1 100 True, new_platform 2 100 True, new_platform 3 100 True]"
      "[]" 2 1 "''tdma''" 0 "demo_env_with ''tdma'' 2" "''tdma''" "[TxData 0 (7/10) [2]]"
      ?e "[]" "1/4" "\<lambda>k. 0"] i b r
  have "isl (Environment_step ?e (1/4) (\<lambda>k. 0))"
    by blast
  with i b r s show ?thesis by (simp add: bad_mac_def)
qed

subsection \<open>End-to-end delivery\<close>

text \<open>
  Claim C1. Platforms 1, 2, 3, fully connected, no disruptor, ten bins, round robin, no
  sliding window, acknowledgements on. Platform 1 calls \<^verbatim>\<open>txData(0.7, [2, 3])\<close>, then the
  environment makes one step of 0.25 s. After it \<^verbatim>\<open>rxData\<close> returns 0.7 on platform 2 and
  on platform 3, and nothing on platform 1.
\<close>

theorem simple_delivery:
  "Environment_init (replicate 3 (replicate 3 True))
     [new_platform 1 100 True, new_platform 2 100 True, new_platform 3 100 True]
     [] 10 1 ''rr'' 0 = Inr demo_env \<and>
   (case run demo_env [] [TxData 0 (7/10) [2, 3], Step (1/4) (\<lambda>k. 0)] of
      Inl err \<Rightarrow> False
    | Inr (e, h) \<Rightarrow>
        fst (user_rxData e 1) = Some (7/10) \<and> fst (user_rxData e 2) = Some (7/10) \<and>
        fst (user_rxData e 0) = None)"
  by code_simp

theorem simple_delivery_witness:
  "\<not> isl (run demo_env [] [TxData 0 (7/10) [2, 3], Step (1/4) (\<lambda>k. 0)]) \<and>
   fst (user_rxData (fst (projr (run demo_env [] [TxData 0 (7/10) [2, 3], Step (1/4) (\<lambda>k. 0)]))) 1)
     = Some (7/10)"
  using simple_delivery
  by (cases "run demo_env [] [TxData 0 (7/10) [2, 3], Step (1/4) (\<lambda>k. 0)]") auto

subsection \<open>The fan-out in closed form\<close>

lemma index_of_Some_iff:
  "index_of xs x = Some i \<longleftrightarrow> i < length xs \<and> xs ! i = x \<and> (\<forall>j<i. xs ! j \<noteq> x)"
proof (induction xs arbitrary: i)
  case Nil
  show ?case by simp
next
  case (Cons y ys)
  show ?case
  proof (cases "y = x")
    case True
    then show ?thesis by (cases i) auto
  next
    case False
    show ?thesis
    proof (cases i)
      case 0
      with False show ?thesis by auto
    next
      case (Suc n)
      with False Cons.IH [of n] show ?thesis
        by (auto simp: less_Suc_eq_0_disj)
    qed
  qed
qed

lemma index_of_distinct:
  "distinct xs \<Longrightarrow> index_of xs x = Some i \<longleftrightarrow> i < length xs \<and> xs ! i = x"
  by (auto simp: index_of_Some_iff nth_eq_iff_index_eq)

lemma index_of_None_iff: "index_of xs x = None \<longleftrightarrow> x \<notin> set xs"
  by (induction xs) auto

lemma log_append_row:
  "log_append m s d x ! s' =
     (if s' = s \<and> s < length m then (m ! s)[d := m ! s ! d @ [x]] else m ! s')"
  by (cases "s < length m") (auto simp: log_append_def nth_list_update list_update_beyond)

lemma length_log_append [simp]: "length (log_append m s d x) = length m"
  by (simp add: log_append_def)

lemma log_dims_append [simp]:
  "log_dims (log_append m s d x) n = log_dims m n"
  by (auto simp: log_dims_def list_all_length log_append_row)

lemma log_append_nth:
  "log_dims m n \<Longrightarrow> s' < n \<Longrightarrow> d' < n \<Longrightarrow>
   log_append m s d x ! s' ! d' = m ! s' ! d' @ (if s' = s \<and> d' = d then [x] else [])"
  by (auto simp: log_dims_def list_all_length log_append_row nth_list_update)

lemma in_log_dims: "log_dims m n \<Longrightarrow> in_log m s d \<longleftrightarrow> s < n \<and> d < n"
  by (auto simp: log_dims_def in_log_def list_all_length)

lemma route_closed:
  assumes "ids_ok e" "log_dims tx (numCommsPlatforms e)" "length out = numCommsPlatforms e"
    and "route e em (tx, out) dest = (tx', out')"
  shows "log_dims tx' (numCommsPlatforms e) \<and> length out' = numCommsPlatforms e \<and>
    (\<forall>s<numCommsPlatforms e. \<forall>d<numCommsPlatforms e.
       tx' ! s ! d = tx ! s ! d @
         (if from_comms e s em \<and> dest = commsPlatformIDs e ! d then [em] else [])) \<and>
    (\<forall>d<numCommsPlatforms e.
       out' ! d = out ! d @ (if reaches e em d \<and> dest = commsPlatformIDs e ! d then [em] else []))"
proof (cases "index_of (commsPlatformIDs e) dest")
  case None
  then have "dest \<noteq> commsPlatformIDs e ! d" if "d < numCommsPlatforms e" for d
    using that assms(1) by (auto simp: index_of_None_iff ids_ok_def)
  with None assms show ?thesis
    by (auto simp: route_def)
next
  case (Some dst)
  with assms(1) have dst: "dst < numCommsPlatforms e" "commsPlatformIDs e ! dst = dest"
    and uniq: "\<And>d. d < numCommsPlatforms e \<Longrightarrow> dest = commsPlatformIDs e ! d \<longleftrightarrow> d = dst"
    by (auto simp: ids_ok_def index_of_distinct nth_eq_iff_index_eq)
  show ?thesis
  proof (cases "source_index e em")
    case None
    with Some assms show ?thesis
      by (auto simp: route_def source_index_def reaches_def from_comms_def split: if_splits)
  next
    case (Some r)
    show ?thesis
    proof (cases "sourceType em = 0")
      case True
      with Some have src: "index_of (commsPlatformIDs e) (sourceID (hdr em)) = Some r"
        by (simp add: source_index_def)
      with assms(1) have r: "r < numCommsPlatforms e"
        by (auto simp: ids_ok_def index_of_Some_iff)
      have fc: "from_comms e s em \<longleftrightarrow> s = r" for s
        using True src by (auto simp: from_comms_def)
      have il: "in_log tx r dst"
        using assms(2) r dst by (simp add: in_log_dims)
      from assms(4) \<open>index_of (commsPlatformIDs e) dest = Some dst\<close> True src il
      have tx': "tx' = log_append tx r dst em"
        and out': "out' = (if adj_get (adjMatrix e) r dst = Inr True
                         then out[dst := out ! dst @ [em]] else out)"
        using dst assms(3)
        by (auto simp: route_def Let_def split: sum.splits if_splits)
      show ?thesis
        using assms(2,3) dst r uniq
        by (auto simp: tx' out' log_append_nth fc reaches_def Some nth_list_update)
    next
      case False
      with Some obtain k where k: "index_of (disruptorPlatformIDs e) (sourceID (hdr em)) = Some k"
        "r = k + numCommsPlatforms e"
        by (auto simp: source_index_def)
      from assms(4) \<open>index_of (commsPlatformIDs e) dest = Some dst\<close> False k
      have tx': "tx' = tx"
        and out': "out' = (if adj_get (adjMatrix e) r dst = Inr True
                         then out[dst := out ! dst @ [em]] else out)"
        using dst assms(3)
        by (auto simp: route_def Let_def split: sum.splits if_splits)
      show ?thesis
        using assms(2,3) dst uniq False
        by (auto simp: tx' out' from_comms_def reaches_def Some nth_list_update)
    qed
  qed
qed

lemma route_dests_closed:
  assumes "ids_ok e" "log_dims tx (numCommsPlatforms e)" "length out = numCommsPlatforms e"
    and "foldl (route e em) (tx, out) dests = (tx', out')"
  shows "log_dims tx' (numCommsPlatforms e) \<and> length out' = numCommsPlatforms e \<and>
    (\<forall>s<numCommsPlatforms e. \<forall>d<numCommsPlatforms e.
       tx' ! s ! d = tx ! s ! d @
         (if from_comms e s em then replicate (count_list dests (commsPlatformIDs e ! d)) em else [])) \<and>
    (\<forall>d<numCommsPlatforms e.
       out' ! d = out ! d @
         (if reaches e em d then replicate (count_list dests (commsPlatformIDs e ! d)) em else []))"
  using assms(2-)
proof (induction dests arbitrary: tx out)
  case Nil
  then show ?case by simp
next
  case (Cons x xs)
  obtain tx1 out1 where r: "route e em (tx, out) x = (tx1, out1)"
    by (cases "route e em (tx, out) x")
  note c = route_closed [OF assms(1) Cons.prems(1,2) r]
  from Cons.prems(3) r have f: "foldl (route e em) (tx1, out1) xs = (tx', out')"
    by simp
  from c have d1: "log_dims tx1 (numCommsPlatforms e)" "length out1 = numCommsPlatforms e"
    by simp_all
  note ih = Cons.IH [OF d1 f]
  show ?case
    using ih c by (auto simp: replicate_append_same)
qed

lemma fanout_loop_closed:
  assumes "ids_ok e" "log_dims tx (numCommsPlatforms e)" "length out = numCommsPlatforms e"
    and "foldl (\<lambda>st emissionObj. foldl (route e emissionObj) st (destID (hdr emissionObj)))
           (tx, out) ems = (tx', out')"
  shows "log_dims tx' (numCommsPlatforms e) \<and> length out' = numCommsPlatforms e \<and>
    (\<forall>s<numCommsPlatforms e. \<forall>d<numCommsPlatforms e.
       tx' ! s ! d = tx ! s ! d @ tx_new e s d ems) \<and>
    (\<forall>d<numCommsPlatforms e. out' ! d = out ! d @ out_new e d ems)"
  using assms(2-)
proof (induction ems arbitrary: tx out)
  case Nil
  then show ?case by (simp add: tx_new_def out_new_def)
next
  case (Cons em ems)
  obtain tx1 out1 where r: "foldl (route e em) (tx, out) (destID (hdr em)) = (tx1, out1)"
    by (cases "foldl (route e em) (tx, out) (destID (hdr em))")
  note c = route_dests_closed [OF assms(1) Cons.prems(1,2) r]
  from Cons.prems(3) r have f:
    "foldl (\<lambda>st emissionObj. foldl (route e emissionObj) st (destID (hdr emissionObj)))
           (tx1, out1) ems = (tx', out')"
    by simp
  from c have d1: "log_dims tx1 (numCommsPlatforms e)" "length out1 = numCommsPlatforms e"
    by simp_all
  note ih = Cons.IH [OF d1 f]
  show ?case
    using ih c by (auto simp: tx_new_def out_new_def copies_to_def)
qed

lemma fanout_closed:
  assumes "ids_ok e" "log_dims (trafficTx e) (numCommsPlatforms e)"
    and "fanout e ems = (tx', out')"
  shows "log_dims tx' (numCommsPlatforms e) \<and> length out' = numCommsPlatforms e \<and>
    (\<forall>s<numCommsPlatforms e. \<forall>d<numCommsPlatforms e.
       tx' ! s ! d = trafficTx e ! s ! d @ tx_new e s d ems) \<and>
    (\<forall>d<numCommsPlatforms e. out' ! d = out_new e d ems)"
  using fanout_loop_closed [OF assms(1,2), of "replicate (numCommsPlatforms e) []" ems tx' out']
    assms(3)
  by (simp add: fanout_def)

lemma count_list_replicate: "count_list (replicate n x) y = (if x = y then n else 0)"
  by (induction n) auto

lemma count_list_concat_copies:
  "count_list (tx_new e s d ems) P =
     (if from_comms e s P then count_list (destID (hdr P)) (commsPlatformIDs e ! d) * count_list ems P
      else 0)"
  by (induction ems) (auto simp: tx_new_def copies_to_def count_list_replicate)


text \<open>
  Claim C6, as stated, fails: platform 1 sends one packet whose destination list names
  platform 2 twice; after the step that packet stands twice in the transmit log from
  platform 1 to platform 2.
\<close>

theorem tx_log_twice_counterexample:
  "(case run demo_env [] [TxData 0 (7/10) [2, 2], Step (1/4) (\<lambda>k. 0)] of
      Inl err \<Rightarrow> False
    | Inr (e, h) \<Rightarrow>
        (case data e ! 0 ! 0 of
           None \<Rightarrow> False
         | Some P \<Rightarrow> destID (hdr P) = [2, 2] \<and> occupied (data e ! 0) = 1 \<and>
             trafficTx e ! 0 ! 1 = [P, P]))"
  by code_simp

text \<open>
  Claim C6, amended. In the fan-out of the emissions \<open>ems\<close> that occupy the bins, the
  transmit log from comms platform \<open>s\<close> to comms platform \<open>d\<close> grows by \<open>tx_new e s d ems\<close>:
  every packet of \<open>s\<close>, in bin order, once for every occurrence of the id of \<open>d\<close> in its
  destination list. So a packet \<open>P\<close> of platform \<open>s\<close> is appended as often as that id
  occurs in its destination list (times the number of bins it occupies, which is one):
  exactly once when the id occurs once, not at all when it does not occur.
\<close>

theorem tx_log_once_per_occurrence:
  assumes "ids_ok e" "log_dims (trafficTx e) (numCommsPlatforms e)"
    and "s < numCommsPlatforms e" "d < numCommsPlatforms e"
  shows "fst (fanout e ems) ! s ! d = trafficTx e ! s ! d @ tx_new e s d ems \<and>
         (from_comms e s P \<longrightarrow>
            count_list (tx_new e s d ems) P =
              count_list (destID (hdr P)) (commsPlatformIDs e ! d) * count_list ems P)"
  using fanout_closed [OF assms(1,2), of ems "fst (fanout e ems)" "snd (fanout e ems)"] assms(3,4)
  by (simp add: count_list_concat_copies)

theorem tx_log_once_per_occurrence_witness:
  "ids_ok demo_env \<and> log_dims (trafficTx demo_env) (numCommsPlatforms demo_env) \<and>
   numCommsPlatforms demo_env = 3 \<and>
   from_comms demo_env 0 (Packet (demo_hdr 1 [2, 3, 2]) 5 1) \<and>
   fst (fanout demo_env [Packet (demo_hdr 1 [2, 3, 2]) 5 1]) ! 0 ! 1 =
     [Packet (demo_hdr 1 [2, 3, 2]) 5 1, Packet (demo_hdr 1 [2, 3, 2]) 5 1] \<and>
   fst (fanout demo_env [Packet (demo_hdr 1 [2, 3, 2]) 5 1]) ! 0 ! 2 =
     [Packet (demo_hdr 1 [2, 3, 2]) 5 1] \<and>
   count_list (tx_new demo_env 0 2 [Packet (demo_hdr 1 [2, 3, 2]) 5 1])
     (Packet (demo_hdr 1 [2, 3, 2]) 5 1) = 1"
proof -
  have a: "ids_ok demo_env" "log_dims (trafficTx demo_env) (numCommsPlatforms demo_env)"
    "numCommsPlatforms demo_env = 3" "from_comms demo_env 0 (Packet (demo_hdr 1 [2, 3, 2]) 5 1)"
    by code_simp+
  have b: "trafficTx demo_env ! 0 ! 1 @ tx_new demo_env 0 1 [Packet (demo_hdr 1 [2, 3, 2]) 5 1]
      = [Packet (demo_hdr 1 [2, 3, 2]) 5 1, Packet (demo_hdr 1 [2, 3, 2]) 5 1]"
    "trafficTx demo_env ! 0 ! 2 @ tx_new demo_env 0 2 [Packet (demo_hdr 1 [2, 3, 2]) 5 1]
      = [Packet (demo_hdr 1 [2, 3, 2]) 5 1]"
    "count_list (destID (hdr (Packet (demo_hdr 1 [2, 3, 2]) (5::real) 1)))
       (commsPlatformIDs demo_env ! 2) *
     count_list [Packet (demo_hdr 1 [2, 3, 2]) 5 1] (Packet (demo_hdr 1 [2, 3, 2]) (5::real) 1) = 1"
    by code_simp+
  from tx_log_once_per_occurrence [OF a(1,2), of 0 1 "[Packet (demo_hdr 1 [2, 3, 2]) 5 1]"]
    tx_log_once_per_occurrence [OF a(1,2), of 0 2 "[Packet (demo_hdr 1 [2, 3, 2]) 5 1]"
      "Packet (demo_hdr 1 [2, 3, 2]) 5 1"]
    a b
  show ?thesis by simp
qed

subsection \<open>The phases of a step that returns\<close>

lemma ebindE:
  assumes "ebind m f = Inr y"
  obtains x where "m = Inr x" "f x = Inr y"
  using assms by (auto simp: ebind_Inr_iff)

lemma ebind_pairE:
  assumes "ebind m (\<lambda>(a, b). f a b) = Inr y"
  obtains a b where "m = Inr (a, b)" "f a b = Inr y"
  using assms by (auto simp: ebind_Inr_iff)

lemma ebind_tripleE:
  assumes "ebind m (\<lambda>(a, b, c). f a b c) = Inr y"
  obtains a b c where "m = Inr (a, b, c)" "f a b c = Inr y"
  using assms by (auto simp: ebind_Inr_iff)

lemma Environment_step_Inr:
  assumes "Environment_step e deltaT rnd = Inr e'"
  shows "\<exists>dps e1 e3 cs ps theData theEnv q dps1 dps2 theData2 tx out cps' rx tx' rx'.
    emap (DisruptorPlatform_step deltaT) (disruptorPlatforms e) = Inr dps \<and>
    updatePlatformConnectivity
      (e\<lparr>commsPlatforms := map (Platform_step deltaT) (commsPlatforms e),
         disruptorPlatforms := dps\<rparr>) = Inr e1 \<and>
    step_coordinators 0 (coordinator e1) (commsPlatforms e1) (data e1) = Inr (cs, ps, theData) \<and>
    e3 = e1\<lparr>elapsedTime_e := elapsedTime_e e1 + deltaT, coordinator := cs,
            commsPlatforms := ps, data := theData\<rparr> \<and>
    qget (dataQueue e1) = Inr (theEnv, q) \<and>
    emap (\<lambda>(disruptorIndex, disruptor).
           ebind (observe e3 disruptorIndex theEnv)
             (\<lambda>theEnvTemp. Inr (disruptor\<lparr>env := Some theEnvTemp\<rparr>)))
      (enumerate 0 (disruptorPlatforms e1)) = Inr dps1 \<and>
    collect_disruptions (length cs) rnd 0 dps1 theData = Inr (dps2, theData2) \<and>
    qfull (qput q (copyEnv (stamp_grid (elapsedTime_e e3) theData2))) \<and>
    fanout e3 (emissions (stamp_grid (elapsedTime_e e3) theData2)) = (tx, out) \<and>
    deliver ps out = Inr cps' \<and>
    account (commsPlatformIDs e3) [0..<numCommsPlatforms e3] out (trafficRx e3) = Inr rx \<and>
    (if windowSize e3 > 0
     then prune_matrix (elapsedTime_e e3) (windowSize e3) (numCommsPlatforms e3) tx
     else Inr tx) = Inr tx' \<and>
    (if windowSize e3 > 0
     then prune_matrix (elapsedTime_e e3) (windowSize e3) (numCommsPlatforms e3) rx
     else Inr rx) = Inr rx' \<and>
    e' = e3\<lparr>disruptorPlatforms := dps2, data := stamp_grid (elapsedTime_e e3) theData2,
            dataQueue := qput q (copyEnv (stamp_grid (elapsedTime_e e3) theData2)),
            commsPlatforms := cps', trafficTx := tx', trafficRx := rx'\<rparr>"
  apply (insert assms)
  apply (unfold Environment_step_def Let_def)
  apply (erule ebindE)
  apply (erule ebindE)
  apply (erule ebind_tripleE)
  apply (erule ebind_pairE)
  apply (erule ebindE)
  apply (erule ebind_pairE)
  apply (simp split: if_splits prod.splits)
   apply (elim ebindE, simp)+
  done

subsection \<open>The logs after a step\<close>

lemma nth_err_Inr_iff: "nth_err xs i = Inr x \<longleftrightarrow> i < length xs \<and> x = xs ! i"
  by (auto simp: nth_err_def)

lemma emap_upt:
  "emap f [0..<n] = Inr ys \<Longrightarrow> length ys = n \<and> (\<forall>i<n. f i = Inr (ys ! i))"
  using emap_Inr_length [of f "[0..<n]" ys] emap_Inr_nth [of f "[0..<n]" ys]
  by auto

lemma account_loop_closed:
  assumes "log_dims rx n" "dst < n"
    and "account_loop (commsPlatformIDs e) dis dst batch rx = Inr rx'"
  shows "log_dims rx' n \<and>
    (\<forall>s<n. \<forall>d<n. rx' ! s ! d = rx ! s ! d @
       (if d = dst \<and> \<not> dis then filter (from_comms e s) batch else []))"
  using assms(1,3)
proof (induction batch arbitrary: rx)
  case Nil
  then show ?case by simp
next
  case (Cons em ems)
  show ?case
  proof (cases "sourceType em = 0")
    case False
    with Cons.prems have "account_loop (commsPlatformIDs e) dis dst ems rx = Inr rx'"
      by simp
    from Cons.IH [OF Cons.prems(1) this] False show ?thesis
      by (simp add: from_comms_def)
  next
    case True
    with Cons.prems(2) obtain src where
      src: "index_of (commsPlatformIDs e) (sourceID (hdr em)) = Some src"
      by (auto split: option.splits)
    have fc: "from_comms e s em \<longleftrightarrow> s = src" for s
      using True src by (auto simp: from_comms_def)
    show ?thesis
    proof (cases dis)
      case True
      with Cons.prems \<open>sourceType em = 0\<close> src
      have "account_loop (commsPlatformIDs e) dis dst ems rx = Inr rx'"
        by simp
      from Cons.IH [OF Cons.prems(1) this] True show ?thesis
        by simp
    next
      case False
      with Cons.prems \<open>sourceType em = 0\<close> src
      have il: "in_log rx src dst" and
        r: "account_loop (commsPlatformIDs e) dis dst ems (log_append rx src dst em) = Inr rx'"
        by (auto split: if_splits)
      have d1: "log_dims (log_append rx src dst em) n"
        using Cons.prems(1) by simp
      from il Cons.prems(1) have "src < n"
        by (simp add: in_log_dims)
      from Cons.IH [OF d1 r] False Cons.prems(1) this assms(2) show ?thesis
        by (auto simp: log_append_nth fc)
    qed
  qed
qed

lemma account_closed:
  assumes "log_dims rx n" "\<forall>d \<in> set ds. d < n" "distinct ds"
    and "account (commsPlatformIDs e) ds out rx = Inr rx'"
  shows "log_dims rx' n \<and>
    (\<forall>s<n. \<forall>d<n. rx' ! s ! d = rx ! s ! d @
       (if d \<in> set ds \<and> \<not> list_ex (\<lambda>em. sourceType em = 1) (out ! d)
        then filter (from_comms e s) (out ! d) else []))"
  using assms
proof (induction ds arbitrary: rx)
  case Nil
  then show ?case by simp
next
  case (Cons dst ds)
  from Cons.prems(4) obtain rx1 where
    b: "dst < length out" and
    l: "account_loop (commsPlatformIDs e) (list_ex (\<lambda>em. sourceType em = 1) (out ! dst)) dst
          (out ! dst) rx = Inr rx1" and
    r: "account (commsPlatformIDs e) ds out rx1 = Inr rx'"
    by (auto simp: nth_err_def split: sum.splits if_splits)
  from Cons.prems(2) have dn: "dst < n" by simp
  note c = account_loop_closed [OF Cons.prems(1) dn l]
  from c have d1: "log_dims rx1 n" by simp
  from Cons.prems have "\<forall>d \<in> set ds. d < n" "distinct ds" "dst \<notin> set ds"
    by simp_all
  from Cons.IH [OF d1 this(1,2) r] c this(3) show ?case
    by auto
qed

lemma prune_matrix_closed:
  assumes "log_dims m n" "prune_matrix t w n m = Inr m'"
  shows "log_dims m' n \<and> (\<forall>s<n. \<forall>d<n. prune_log t w (m ! s ! d) = Inr (m' ! s ! d))"
proof -
  from assms(2) obtain rows where
    rows: "emap (\<lambda>s. ebind (nth_err m s)
                    (\<lambda>row. ebind (emap (\<lambda>d. ebind (nth_err row d) (prune_log t w)) [0..<n])
                              (\<lambda>r. Inr (r @ drop n row))))
              [0..<n] = Inr rows" and m': "m' = rows @ drop n m"
    by (auto simp: prune_matrix_def ebind_Inr_iff)
  from assms(1) have len: "length m = n" "\<And>s. s < n \<Longrightarrow> length (m ! s) = n"
    by (auto simp: log_dims_def list_all_length)
  note u = emap_upt [OF rows]
  from u len m' have m'': "m' = rows" "length rows = n" by simp_all
  have row: "length (rows ! s) = n \<and> (\<forall>d<n. prune_log t w (m ! s ! d) = Inr (rows ! s ! d))"
    if "s < n" for s
  proof -
    from u that obtain r where
      r: "emap (\<lambda>d. ebind (nth_err (m ! s) d) (prune_log t w)) [0..<n] = Inr r"
      and rs: "rows ! s = r @ drop n (m ! s)"
      by (auto simp: ebind_Inr_iff nth_err_Inr_iff)
    note v = emap_upt [OF r]
    from v rs len(2) [OF that] show ?thesis
      by (auto simp: ebind_Inr_iff nth_err_Inr_iff)
  qed
  with m'' show ?thesis
    by (auto simp: log_dims_def list_all_length)
qed

lemma static_eq_cong:
  assumes "static_eq e e'"
  shows "tx_new e' = tx_new e" "out_new e' = out_new e" "rx_new e' = rx_new e"
    "ids_ok e' = ids_ok e"
proof -
  from assms have eqs: "from_comms e' = from_comms e" "copies_to e' = copies_to e"
    "reaches e' = reaches e"
    by (simp_all add: static_eq_def from_comms_def copies_to_def reaches_def source_index_def
        fun_eq_iff cong: option.case_cong)
  show "tx_new e' = tx_new e" "out_new e' = out_new e" "rx_new e' = rx_new e"
    by (simp_all add: eqs tx_new_def out_new_def rx_new_def fun_eq_iff)
  from assms show "ids_ok e' = ids_ok e"
    by (simp add: static_eq_def ids_ok_def)
qed

lemma hdr_map_hdr [simp]: "hdr (map_hdr f em) = f (hdr em)"
  by (cases em) auto

lemma sourceType_map_hdr [simp]: "sourceType (map_hdr f em) = sourceType em"
  by (cases em) auto

lemma emissions_stamp_grid:
  "em \<in> set (emissions (stamp_grid t g)) \<Longrightarrow> emissionTime (hdr em) = Some t"
  by (auto simp: emissions_def stamp_grid_def stamp_def List.map_filter_def)

lemma step_logs:
  assumes "Environment_step e dT rnd = Inr e'" "env_wf e"
  shows "static_eq e e' \<and> elapsedTime_e e' = elapsedTime_e e + dT \<and> env_wf e' \<and>
    (\<forall>em \<in> set (emissions (data e')). emissionTime (hdr em) = Some (elapsedTime_e e')) \<and>
    (\<forall>s<numCommsPlatforms e. \<forall>d<numCommsPlatforms e.
       pruned e' (trafficTx e ! s ! d @ tx_new e s d (emissions (data e')))
         = Inr (trafficTx e' ! s ! d) \<and>
       pruned e' (trafficRx e ! s ! d @ rx_new e s d (emissions (data e')))
         = Inr (trafficRx e' ! s ! d))"
proof -
  from Environment_step_Inr [OF assms(1)] obtain dps e1 e3 cs ps theData theEnv q dps1 dps2
    theData2 tx out cps' rx tx' rx' where
    u: "updatePlatformConnectivity
      (e\<lparr>commsPlatforms := map (Platform_step dT) (commsPlatforms e),
         disruptorPlatforms := dps\<rparr>) = Inr e1" and
    e3: "e3 = e1\<lparr>elapsedTime_e := elapsedTime_e e1 + dT, coordinator := cs,
            commsPlatforms := ps, data := theData\<rparr>" and
    f: "fanout e3 (emissions (stamp_grid (elapsedTime_e e3) theData2)) = (tx, out)" and
    a: "account (commsPlatformIDs e3) [0..<numCommsPlatforms e3] out (trafficRx e3) = Inr rx" and
    p1: "(if windowSize e3 > 0
     then prune_matrix (elapsedTime_e e3) (windowSize e3) (numCommsPlatforms e3) tx
     else Inr tx) = Inr tx'" and
    p2: "(if windowSize e3 > 0
     then prune_matrix (elapsedTime_e e3) (windowSize e3) (numCommsPlatforms e3) rx
     else Inr rx) = Inr rx'" and
    e': "e' = e3\<lparr>disruptorPlatforms := dps2, data := stamp_grid (elapsedTime_e e3) theData2,
            dataQueue := qput q (copyEnv (stamp_grid (elapsedTime_e e3) theData2)),
            commsPlatforms := cps', trafficTx := tx', trafficRx := rx'\<rparr>"
    by blast
  let ?n = "numCommsPlatforms e"
  let ?ems = "emissions (stamp_grid (elapsedTime_e e3) theData2)"
  note fr = updatePlatformConnectivity_frame [OF u]
  from fr e3 have s3: "static_eq e e3" "elapsedTime_e e3 = elapsedTime_e e + dT"
    "trafficTx e3 = trafficTx e" "trafficRx e3 = trafficRx e"
    by (simp_all add: static_eq_def)
  from s3(1) e' have s': "static_eq e e'" "static_eq e3 e'"
    by (simp_all add: static_eq_def)
  from s3(1) have n3: "numCommsPlatforms e3 = ?n" "commsPlatformIDs e3 = commsPlatformIDs e"
    "windowSize e3 = windowSize e"
    by (simp_all add: static_eq_def)
  from assms(2) have wf: "ids_ok e" "log_dims (trafficTx e) ?n" "log_dims (trafficRx e) ?n"
    by (simp_all add: env_wf_def)
  from wf(1) s3(1) have ok3: "ids_ok e3"
    by (simp add: static_eq_cong)
  note fc = fanout_closed [OF ok3 _ f, unfolded n3 s3(3), OF wf(2)]
  note ac = account_closed [where e = e3, OF wf(3) _ _ a [unfolded n3(1) s3(4)]]
  have ac': "log_dims rx ?n"
    "\<And>s d. s < ?n \<Longrightarrow> d < ?n \<Longrightarrow> rx ! s ! d = trafficRx e ! s ! d @ rx_new e3 s d ?ems"
    using ac fc by (auto simp: rx_new_def)
  have ptx: "log_dims tx' ?n \<and> (\<forall>s<?n. \<forall>d<?n. pruned e' (tx ! s ! d) = Inr (tx' ! s ! d))"
  proof (cases "windowSize e > 0")
    case True
    with p1 n3 have "prune_matrix (elapsedTime_e e3) (windowSize e) ?n tx = Inr tx'" by simp
    from prune_matrix_closed [OF _ this] fc True show ?thesis
      by (simp add: pruned_def e' n3)
  next
    case False
    with p1 n3 fc show ?thesis by (simp add: pruned_def e')
  qed
  have prx: "log_dims rx' ?n \<and> (\<forall>s<?n. \<forall>d<?n. pruned e' (rx ! s ! d) = Inr (rx' ! s ! d))"
  proof (cases "windowSize e > 0")
    case True
    with p2 n3 have "prune_matrix (elapsedTime_e e3) (windowSize e) ?n rx = Inr rx'" by simp
    from prune_matrix_closed [OF ac'(1) this] True show ?thesis
      by (simp add: pruned_def e' n3)
  next
    case False
    with p2 n3 ac'(1) show ?thesis by (simp add: pruned_def e')
  qed
  have wf': "env_wf e'"
    using ptx prx wf(1) s'(1) by (simp add: env_wf_def e' static_eq_cong n3 e3 fr)
  have st: "\<forall>em \<in> set (emissions (data e')). emissionTime (hdr em) = Some (elapsedTime_e e')"
    by (auto simp: e' dest: emissions_stamp_grid)
  have d': "emissions (data e') = ?ems" by (simp add: e')
  show ?thesis
    using s'(1) s3(2) wf' st ptx prx fc ac'(2)
    by (simp add: d' static_eq_cong [OF s3(1)]) (simp add: e')
qed

subsection \<open>Traffic statistics\<close>

lemma emap_Inr_map:
  "(\<And>x. x \<in> set xs \<Longrightarrow> f x = Inr (g x)) \<Longrightarrow> emap f xs = Inr (map g xs)"
  by (induction xs) auto

lemma log_dims_nth: "log_dims m n \<Longrightarrow> s < n \<Longrightarrow> length (m ! s) = n"
  by (simp add: log_dims_def list_all_length)

lemma log_dims_eqI:
  assumes "log_dims a n" "log_dims b n" "\<And>s d. s < n \<Longrightarrow> d < n \<Longrightarrow> a ! s ! d = b ! s ! d"
  shows "a = b"
proof (rule nth_equalityI)
  show "length a = length b" using assms by (simp add: log_dims_def)
next
  fix s assume "s < length a"
  with assms(1) have s: "s < n" by (simp add: log_dims_def)
  show "a ! s = b ! s"
    using assms s by (intro nth_equalityI) (auto simp: log_dims_nth)
qed

lemma trafficStatistics_closed:
  assumes "env_wf e"
  shows "trafficStatistics e = Inr (ratio_matrix e)"
proof -
  from assms have d: "log_dims (trafficTx e) (numCommsPlatforms e)"
    "log_dims (trafficRx e) (numCommsPlatforms e)"
    by (simp_all add: env_wf_def)
  show ?thesis
    unfolding trafficStatistics_def ratio_matrix_def
    using d
    by (intro emap_Inr_map) (auto simp: nth_err_def log_dims_nth log_dims_def)
qed

lemma adj_get_all_true:
  "all_true_adj n m \<Longrightarrow> r < n \<Longrightarrow> d < n \<Longrightarrow> adj_get m r d = Inr True"
  by (auto simp: all_true_adj_def adj_get_def nth_err_def list_all_length)

lemma filter_concat_copies:
  "filter Q (concat (map (copies_to e d) xs)) = concat (map (copies_to e d) (filter Q xs))"
  by (induction xs) (auto simp: copies_to_def)

lemma set_concat_copies: "set (concat (map (copies_to e d) xs)) \<subseteq> set xs"
  by (auto simp: copies_to_def)

lemma rx_new_all_true:
  assumes "ids_ok e" "disruptorPlatformIDs e = []"
    "all_true_adj (numCommsPlatforms e) (adjMatrix e)" "d < numCommsPlatforms e"
  shows "rx_new e s d ems = tx_new e s d ems"
proof -
  have r: "reaches e em d \<longleftrightarrow> (\<exists>s'. from_comms e s' em)" for em
  proof (cases "sourceType em = 0")
    case True
    show ?thesis
    proof (cases "index_of (commsPlatformIDs e) (sourceID (hdr em))")
      case None
      with True show ?thesis by (simp add: reaches_def source_index_def from_comms_def)
    next
      case (Some r)
      with assms(1) have "r < numCommsPlatforms e"
        by (auto simp: ids_ok_def index_of_Some_iff)
      with Some True assms(3,4) show ?thesis
        by (simp add: reaches_def source_index_def from_comms_def adj_get_all_true)
    qed
  next
    case False
    with assms(2) show ?thesis
      by (simp add: reaches_def source_index_def from_comms_def)
  qed
  have o: "out_new e d ems = concat (map (copies_to e d) (filter (\<lambda>em. \<exists>s'. from_comms e s' em) ems))"
    by (simp add: out_new_def r)
  have "\<not> list_ex (\<lambda>em. sourceType em = 1) (out_new e d ems)"
    unfolding o list_ex_iff
    by (auto simp: from_comms_def copies_to_def)
  moreover have "filter (from_comms e s) (out_new e d ems) = tx_new e s d ems"
    unfolding o tx_new_def filter_concat_copies
    by (rule arg_cong [where f = "\<lambda>xs. concat (map (copies_to e d) xs)"])
      (auto intro: filter_cong)
  ultimately show ?thesis
    by (simp add: rx_new_def)
qed

lemma step_lossless:
  assumes "Environment_step e dT rnd = Inr e'" "lossless e"
  shows "lossless e' \<and> numCommsPlatforms e' = numCommsPlatforms e"
proof -
  from assms(2) have wf: "env_wf e" and dz: "disruptorPlatformIDs e = []"
    and at: "all_true_adj (numCommsPlatforms e) (adjMatrix e)" and eq: "trafficRx e = trafficTx e"
    by (simp_all add: lossless_def)
  note l = step_logs [OF assms(1) wf]
  from l have se: "static_eq e e'" and wf': "env_wf e'" by simp_all
  from wf have ok: "ids_ok e" by (simp add: env_wf_def)
  have "trafficRx e' ! s ! d = trafficTx e' ! s ! d"
    if "s < numCommsPlatforms e" "d < numCommsPlatforms e" for s d
    using l that eq rx_new_all_true [OF ok dz at that(2), of s "emissions (data e')"]
    by (metis sum.inject(2))
  with wf' se have "trafficRx e' = trafficTx e'"
    by (intro log_dims_eqI [where n = "numCommsPlatforms e"]) (auto simp: env_wf_def static_eq_def)
  with wf' se dz at show ?thesis
    by (simp add: lossless_def static_eq_def)
qed

lemma copyEnv_id [simp]: "copyEnv g = g"
  by (simp add: copyEnv_def)

lemma init_fields:
  assumes "Environment_init adj cps dps B dl m w = Inr e0"
  shows "commsPlatformIDs e0 = map platform_id cps \<and> distinct (map platform_id cps) \<and>
    numCommsPlatforms e0 = length cps \<and>
    disruptorPlatformIDs e0 = map platform_id dps \<and> numDisruptorPlatforms e0 = length dps \<and>
    adjMatrix e0 = adj \<and>
    trafficTx e0 = replicate (length cps) (replicate (length cps) []) \<and>
    trafficRx e0 = replicate (length cps) (replicate (length cps) []) \<and>
    elapsedTime_e e0 = 0 \<and> windowSize e0 = w \<and> 0 \<le> w \<and>
    disruptorDelay e0 = dl \<and> 0 < dl \<and> 1 \<le> B \<and>
    dataQueue e0 = \<lparr>maxsize = dl, items = replicate (nat dl) (empty_grid (length dps) B)\<rparr> \<and>
    data e0 = empty_grid (length dps) B \<and>
    length (commsPlatforms e0) = length cps \<and>
    length (disruptorPlatforms e0) = length dps \<and> length (coordinator e0) = 1"
  using assms
  unfolding Environment_init_def Let_def CommsCoordinator_init_def empty_grid_def
  apply (simp split: if_splits)
  apply (frule updatePlatformConnectivity_frame)
  apply (drule updatePlatformConnectivity_platforms)
  apply simp
  done

lemma init_env_wf:
  assumes "Environment_init adj cps dps B dl m w = Inr e0"
  shows "env_wf e0"
  using init_fields [OF assms]
  by (simp add: env_wf_def ids_ok_def log_dims_def list_all_length)

lemma run_invariant:
  assumes "run e h acts = Inr (e', h')" "P e" "set acts \<subseteq> A"
    and "\<And>e k x ds. P e \<Longrightarrow> P (user_txData e k x ds)"
    and "\<And>e k. P e \<Longrightarrow> P (snd (user_rxData e k))"
    and "\<And>e m. P e \<Longrightarrow> SetAdjMatrix m \<in> A \<Longrightarrow> P (e\<lparr>adjMatrix := m\<rparr>)"
    and "\<And>e dT rnd e1. P e \<Longrightarrow> Step dT rnd \<in> A \<Longrightarrow> Environment_step e dT rnd = Inr e1 \<Longrightarrow> P e1"
  shows "P e'"
  using assms(1-3)
proof (induction acts arbitrary: e h)
  case Nil
  then show ?case by simp
next
  case (Cons a acts)
  show ?case
  proof (cases a)
    case (TxData k x ds)
    with Cons.prems Cons.IH [of "user_txData e k x ds" h] assms(4) show ?thesis by simp
  next
    case (RxData k)
    with Cons.prems Cons.IH [of "snd (user_rxData e k)" h] assms(5) show ?thesis by simp
  next
    case (SetAdjMatrix m)
    with Cons.prems Cons.IH [of "e\<lparr>adjMatrix := m\<rparr>" h] assms(6) show ?thesis by simp
  next
    case (Step dT rnd)
    with Cons.prems obtain e1 where s: "Environment_step e dT rnd = Inr e1"
      and r: "run e1 (h @ [data e1]) acts = Inr (e', h')"
      by (auto split: sum.splits)
    from Step Cons.prems assms(7) [OF _ _ s] have "P e1" by simp
    with Cons.IH [OF r] Cons.prems show ?thesis by simp
  qed
qed

lemma user_frame [simp]:
  "env_wf (user_txData e k x ds) = env_wf e"
  "env_wf (snd (user_rxData e k)) = env_wf e"
  "env_wf (e\<lparr>adjMatrix := m\<rparr>) = env_wf e"
  "lossless (user_txData e k x ds) = lossless e"
  "lossless (snd (user_rxData e k)) = lossless e"
  "numCommsPlatforms (user_txData e k x ds) = numCommsPlatforms e"
  "numCommsPlatforms (snd (user_rxData e k)) = numCommsPlatforms e"
  by (simp_all add: env_wf_def ids_ok_def lossless_def user_txData_def user_rxData_def
      split: prod.splits)

lemma run_env_wf:
  assumes "run e h acts = Inr (e', h')" "env_wf e"
  shows "env_wf e'"
  by (rule run_invariant [OF assms(1), where P = env_wf and A = UNIV])
    (use assms(2) in \<open>auto dest: step_logs\<close>)

lemma run_lossless:
  assumes "run e h acts = Inr (e', h')" "lossless e" "keeps_all_true (numCommsPlatforms e) acts"
  shows "lossless e'"
proof -
  let ?n = "numCommsPlatforms e"
  have "lossless e' \<and> numCommsPlatforms e' = ?n"
  proof (rule run_invariant [OF assms(1), where A = "set acts"
        and P = "\<lambda>x. lossless x \<and> numCommsPlatforms x = ?n"])
    fix x m assume "lossless x \<and> numCommsPlatforms x = ?n" "SetAdjMatrix m \<in> set acts"
    with assms(3) show "lossless (x\<lparr>adjMatrix := m\<rparr>) \<and> numCommsPlatforms (x\<lparr>adjMatrix := m\<rparr>) = ?n"
      by (auto simp: keeps_all_true_def list_all_iff lossless_def env_wf_def ids_ok_def)
  qed (use assms(2) in \<open>auto dest: step_lossless\<close>)
  then show ?thesis by simp
qed

text \<open>
  Claim C9. In every environment reached from the constructor by a run that returns,
  \<^verbatim>\<open>trafficStatistics\<close> returns the matrix \<open>ratio_matrix\<close>, whose entry \<open>(s, d)\<close> is the
  length of the receive log over the length of the transmit log when the transmit log
  is not empty, and 0 otherwise. Without disruptor platforms and with an adjacency
  matrix that is all true (at construction and whenever the user assigns one), every
  entry with a logged transmission is 1.
\<close>

theorem statistics_ratio:
  assumes "Environment_init adj cps dps B dl m w = Inr e0" "run e0 [] acts = Inr (e, h)"
  shows "trafficStatistics e = Inr (ratio_matrix e) \<and>
    (dps = [] \<and> all_true_adj (length cps) adj \<and> keeps_all_true (length cps) acts \<longrightarrow>
       (\<forall>s<numCommsPlatforms e. \<forall>d<numCommsPlatforms e.
          trafficTx e ! s ! d \<noteq> [] \<longrightarrow> ratio_matrix e ! s ! d = 1))"
proof -
  note f = init_fields [OF assms(1)]
  note wf0 = init_env_wf [OF assms(1)]
  from run_env_wf [OF assms(2) wf0] have wf: "env_wf e" .
  have "ratio_matrix e ! s ! d = 1"
    if "dps = []" "all_true_adj (length cps) adj" "keeps_all_true (length cps) acts"
      "s < numCommsPlatforms e" "d < numCommsPlatforms e" "trafficTx e ! s ! d \<noteq> []" for s d
  proof -
    from that(1,2) f wf0 have "lossless e0"
      by (simp add: lossless_def)
    from run_lossless [OF assms(2) this] that(3) f have "trafficRx e = trafficTx e"
      by (simp add: lossless_def)
    with that(4-6) show ?thesis
      by (simp add: ratio_matrix_def)
  qed
  with trafficStatistics_closed [OF wf] show ?thesis by blast
qed

lemma demo_env_init:
  "Environment_init (replicate 3 (replicate 3 True))
     [new_platform 1 100 True, new_platform 2 100 True, new_platform 3 100 True]
     [] 10 1 ''rr'' 0 = Inr demo_env"
  by code_simp

theorem statistics_ratio_witness:
  "Environment_init (replicate 3 (replicate 3 True))
     [new_platform 1 100 True, new_platform 2 100 True, new_platform 3 100 True]
     [] 10 1 ''rr'' 0 = Inr demo_env \<and>
   run demo_env [] demo_acts = Inr (demo_run demo_acts) \<and>
   all_true_adj 3 (replicate 3 (replicate 3 True)) \<and> keeps_all_true 3 demo_acts \<and>
   trafficStatistics (fst (demo_run demo_acts)) = Inr (ratio_matrix (fst (demo_run demo_acts))) \<and>
   trafficStatistics (fst (demo_run demo_acts)) = Inr [[0, 1, 1], [1, 0, 0], [1, 0, 0]]"
proof -
  have "\<not> isl (run demo_env [] demo_acts)" by code_simp
  then have r: "run demo_env [] demo_acts = Inr (fst (demo_run demo_acts), snd (demo_run demo_acts))"
    by (simp add: demo_run_def)
  have c: "all_true_adj 3 (replicate 3 (replicate 3 True))" "keeps_all_true 3 demo_acts"
    "trafficStatistics (fst (demo_run demo_acts)) = Inr [[0, 1, 1], [1, 0, 0], [1, 0, 0]]"
    by code_simp+
  from statistics_ratio [OF demo_env_init r] r c demo_env_init show ?thesis
    by simp
qed

subsection \<open>The sliding window\<close>

lemma prune_log_suffix: "prune_log t w xs = Inr ys \<Longrightarrow> \<exists>k. ys = drop k xs"
proof (induction xs)
  case Nil
  then show ?case by simp
next
  case (Cons em ems)
  show ?case
  proof (cases "prune_log t w (em # ems) = Inr (em # ems)")
    case True
    with Cons.prems show ?thesis by (auto intro: exI [where x = 0])
  next
    case False
    with Cons.prems have "prune_log t w ems = Inr ys"
      by (auto split: option.splits if_splits)
    from Cons.IH [OF this] obtain k where "ys = drop k ems" by blast
    then show ?thesis by (auto intro: exI [where x = "Suc k"])
  qed
qed

lemma prune_log_window:
  "sorted_wrt time_le xs \<Longrightarrow> prune_log t w xs = Inr ys \<Longrightarrow> list_all (within_window t w) ys"
proof (induction xs)
  case Nil
  then show ?case by simp
next
  case (Cons em ems)
  from Cons.prems(2) obtain te where te: "emissionTime (hdr em) = Some te"
    by (auto split: option.splits)
  show ?case
  proof (cases "t - te > w")
    case True
    with Cons.prems te have "prune_log t w ems = Inr ys" "sorted_wrt time_le ems"
      by simp_all
    with Cons.IH show ?thesis by simp
  next
    case False
    with Cons.prems te have ys: "ys = em # ems" by simp
    have "within_window t w b" if "b \<in> set ems" for b
      using Cons.prems(1) that te False
      by (auto simp: time_le_def within_window_def split: option.splits)
    with False te ys show ?thesis
      by (auto simp: list_all_iff within_window_def)
  qed
qed

lemma good_log_drop: "good_log t xs \<Longrightarrow> good_log t (drop k xs)"
  by (auto simp: good_log_def sorted_wrt_drop list_all_iff dest: in_set_dropD)

lemma good_log_append_new:
  assumes "good_log t xs" "t \<le> t'" "\<forall>em \<in> set ys. emissionTime (hdr em) = Some t'"
  shows "good_log t' (xs @ ys)"
proof -
  have "sorted_wrt time_le ys"
    using assms(3) by (auto simp: sorted_wrt_iff_nth_less time_le_def)
  with assms show ?thesis
    by (auto simp: good_log_def sorted_wrt_append list_all_iff time_le_def emitted_by_def
        split: option.splits)
qed

lemma set_tx_new: "set (tx_new e s d ems) \<subseteq> set ems"
  by (auto simp: tx_new_def copies_to_def)

lemma set_out_new: "set (out_new e d ems) \<subseteq> set ems"
  by (auto simp: out_new_def copies_to_def)

lemma set_rx_new: "set (rx_new e s d ems) \<subseteq> set ems"
  using set_out_new [of e d ems] by (auto simp: rx_new_def)

lemma pruned_good:
  assumes "good_log t xs" "t \<le> elapsedTime_e e'" "set ys \<subseteq> set ems"
    "\<forall>em \<in> set ems. emissionTime (hdr em) = Some (elapsedTime_e e')"
    "pruned e' (xs @ ys) = Inr zs"
  shows "good_log (elapsedTime_e e') zs \<and>
         (0 < windowSize e' \<longrightarrow> list_all (within_window (elapsedTime_e e') (windowSize e')) zs)"
proof -
  from assms(3,4) have "\<forall>em \<in> set ys. emissionTime (hdr em) = Some (elapsedTime_e e')"
    by auto
  from good_log_append_new [OF assms(1,2) this] have g: "good_log (elapsedTime_e e') (xs @ ys)" .
  show ?thesis
  proof (cases "0 < windowSize e'")
    case True
    with assms(5) have p: "prune_log (elapsedTime_e e') (windowSize e') (xs @ ys) = Inr zs"
      by (simp add: pruned_def)
    from prune_log_suffix [OF p] obtain k where "zs = drop k (xs @ ys)" by blast
    with g good_log_drop have "good_log (elapsedTime_e e') zs" by blast
    moreover from g have "sorted_wrt time_le (xs @ ys)" by (simp add: good_log_def)
    note prune_log_window [OF this p]
    ultimately show ?thesis by simp
  next
    case False
    with assms(5) g show ?thesis by (simp add: pruned_def)
  qed
qed

lemma step_timely:
  assumes "Environment_step e dT rnd = Inr e'" "env_wf e" "timely e" "0 \<le> dT"
  shows "timely e' \<and> (0 < windowSize e' \<longrightarrow> windowed e')"
proof -
  note l = step_logs [OF assms(1,2)]
  from l have n: "numCommsPlatforms e' = numCommsPlatforms e"
    and t: "elapsedTime_e e \<le> elapsedTime_e e'"
    and st: "\<forall>em \<in> set (emissions (data e')). emissionTime (hdr em) = Some (elapsedTime_e e')"
    using assms(4) by (simp_all add: static_eq_def)
  have "(good_log (elapsedTime_e e') (trafficTx e' ! s ! d) \<and>
         (0 < windowSize e' \<longrightarrow>
            list_all (within_window (elapsedTime_e e') (windowSize e')) (trafficTx e' ! s ! d))) \<and>
        (good_log (elapsedTime_e e') (trafficRx e' ! s ! d) \<and>
         (0 < windowSize e' \<longrightarrow>
            list_all (within_window (elapsedTime_e e') (windowSize e')) (trafficRx e' ! s ! d)))"
    if "s < numCommsPlatforms e" "d < numCommsPlatforms e" for s d
  proof -
    from assms(3) that have g: "good_log (elapsedTime_e e) (trafficTx e ! s ! d)"
      "good_log (elapsedTime_e e) (trafficRx e ! s ! d)"
      by (simp_all add: timely_def)
    from l that have p:
      "pruned e' (trafficTx e ! s ! d @ tx_new e s d (emissions (data e'))) = Inr (trafficTx e' ! s ! d)"
      "pruned e' (trafficRx e ! s ! d @ rx_new e s d (emissions (data e'))) = Inr (trafficRx e' ! s ! d)"
      by simp_all
    show ?thesis
      using pruned_good [OF g(1) t set_tx_new st p(1)] pruned_good [OF g(2) t set_rx_new st p(2)]
      by simp
  qed
  then show ?thesis
    by (simp add: timely_def windowed_def n)
qed

lemma window_inv_user [simp]:
  "window_inv w (user_txData e k x ds) = window_inv w e"
  "window_inv w (snd (user_rxData e k)) = window_inv w e"
  "window_inv w (e\<lparr>adjMatrix := m\<rparr>) = window_inv w e"
  by (simp_all add: window_inv_def env_wf_def ids_ok_def timely_def windowed_def
      user_txData_def user_rxData_def split: prod.splits)

lemma window_inv_init:
  assumes "Environment_init adj cps dps B dl m w = Inr e0"
  shows "window_inv w e0"
  using init_fields [OF assms] init_env_wf [OF assms]
  by (simp add: window_inv_def timely_def windowed_def good_log_def)

lemma run_window_inv:
  assumes "run e h acts = Inr (e', h')" "window_inv w e" "nonneg_steps acts"
  shows "window_inv w e'"
proof (rule run_invariant [OF assms(1), where A = "set acts" and P = "window_inv w"])
  fix x dT rnd x1
  assume a: "window_inv w x" "Step dT rnd \<in> set acts" "Environment_step x dT rnd = Inr x1"
  with assms(3) have "0 \<le> dT"
    by (auto simp: nonneg_steps_def list_all_iff)
  from a(1) have "env_wf x" "timely x" "windowSize x = w"
    by (simp_all add: window_inv_def)
  from step_timely [OF a(3) this(1,2) \<open>0 \<le> dT\<close>] step_logs [OF a(3) this(1)] this(3)
  show "window_inv w x1"
    by (simp add: window_inv_def static_eq_def)
qed (use assms(2) in simp_all)

text \<open>
  Claim C7, as stated, fails when simulated time runs backwards. \<^verbatim>\<open>step\<close> accepts any
  float. With a window of 1 s, a packet is emitted at time 5, the next step has
  \<^verbatim>\<open>deltaT = -4\<close> and emits a packet at time 1, and a step of 4.5 s follows. At time 5.5
  the head of the log (emitted at 5) is inside the window, so pruning stops, and the
  entry behind it (emitted at 1) stays although it is 4.5 s old.
\<close>

theorem sliding_window_backwards:
  "Environment_init (replicate 3 (replicate 3 True))
     [new_platform 1 100 True, new_platform 2 100 True, new_platform 3 100 True]
     [] 10 1 ''rr'' 1 = Inr (demo_env_window 1) \<and>
   (case run (demo_env_window 1) [] backwards_acts of
      Inl err \<Rightarrow> False
    | Inr (e, h) \<Rightarrow> 0 < windowSize e \<and> elapsedTime_e e = 11/2 \<and>
        map (\<lambda>em. emissionTime (hdr em)) (trafficTx e ! 0 ! 1) = [Some 5, Some 1] \<and>
        \<not> list_all (within_window (elapsedTime_e e) (windowSize e)) (trafficTx e ! 0 ! 1))"
  by code_simp

text \<open>
  Claim C7, amended. Take an environment as the constructor returns it, with a window
  \<open>w > 0\<close>, and any run in which every \<^verbatim>\<open>deltaT\<close> is a finite number that is not negative,
  and in which the elapsed time stays finite. At the end of every step (and at every
  other moment of the run) every entry of every transmit and receive log has an
  emission time, and \<^verbatim>\<open>elapsedTime - emissionTime <= windowSize\<close>. Pruning is \<open>prune_log\<close>:
  it drops the head while the head is older than the window; that this reaches every
  old entry rests on the emission times being in order along each log.

  Finiteness is not a hypothesis of the theorem because it is built into the model:
  its times are real numbers. The program also accepts \<^verbatim>\<open>step(float('inf'))\<close>; a packet
  emitted in that step is stamped \<^verbatim>\<open>inf\<close>, \<^verbatim>\<open>inf - inf\<close> is \<^verbatim>\<open>nan\<close>, and both the test of the
  pruning loop and the bound are false for it. Such a run is outside the model and
  outside the amended claim.
\<close>

theorem sliding_window_bound:
  assumes "Environment_init adj cps dps B dl m w = Inr e0" "run e0 [] acts = Inr (e, h)"
    and "nonneg_steps acts" "0 < w"
  shows "windowSize e = w \<and>
    (\<forall>s<numCommsPlatforms e. \<forall>d<numCommsPlatforms e.
       list_all (within_window (elapsedTime_e e) (windowSize e)) (trafficTx e ! s ! d) \<and>
       list_all (within_window (elapsedTime_e e) (windowSize e)) (trafficRx e ! s ! d))"
  using run_window_inv [OF assms(2) window_inv_init [OF assms(1)] assms(3)] assms(4)
  by (auto simp: window_inv_def windowed_def)

theorem sliding_window_bound_witness:
  "Environment_init (replicate 3 (replicate 3 True))
     [new_platform 1 100 True, new_platform 2 100 True, new_platform 3 100 True]
     [] 10 1 ''rr'' 1 = Inr (demo_env_window 1) \<and>
   nonneg_steps forwards_acts \<and>
   \<not> isl (run (demo_env_window 1) [] forwards_acts) \<and>
   windowSize (fst (projr (run (demo_env_window 1) [] forwards_acts))) = 1 \<and>
   elapsedTime_e (fst (projr (run (demo_env_window 1) [] forwards_acts))) = 3 \<and>
   map (\<lambda>em. emissionTime (hdr em))
     (trafficTx (fst (projr (run (demo_env_window 1) [] forwards_acts))) ! 0 ! 1) = [Some 2] \<and>
   list_all (within_window 3 1)
     (trafficTx (fst (projr (run (demo_env_window 1) [] forwards_acts))) ! 0 ! 1)"
proof -
  have i: "Environment_init (replicate 3 (replicate 3 True))
     [new_platform 1 100 True, new_platform 2 100 True, new_platform 3 100 True]
     [] 10 1 ''rr'' 1 = Inr (demo_env_window 1)"
    by code_simp
  have n: "nonneg_steps forwards_acts" by code_simp
  have c: "\<not> isl (run (demo_env_window 1) [] forwards_acts)"
    "elapsedTime_e (fst (projr (run (demo_env_window 1) [] forwards_acts))) = 3"
    "map (\<lambda>em. emissionTime (hdr em))
       (trafficTx (fst (projr (run (demo_env_window 1) [] forwards_acts))) ! 0 ! 1) = [Some 2]"
    "numCommsPlatforms (fst (projr (run (demo_env_window 1) [] forwards_acts))) = 3"
    by code_simp+
  from c(1) have r: "run (demo_env_window 1) [] forwards_acts =
      Inr (fst (projr (run (demo_env_window 1) [] forwards_acts)),
           snd (projr (run (demo_env_window 1) [] forwards_acts)))"
    by simp
  note b = sliding_window_bound [OF i r n]
  from b have w: "windowSize (fst (projr (run (demo_env_window 1) [] forwards_acts))) = 1"
    by simp
  from b [THEN conjunct2, rule_format, of 0 1] c(4)
  have "list_all (within_window (elapsedTime_e (fst (projr (run (demo_env_window 1) [] forwards_acts))))
          (windowSize (fst (projr (run (demo_env_window 1) [] forwards_acts)))))
     (trafficTx (fst (projr (run (demo_env_window 1) [] forwards_acts))) ! 0 ! 1)"
    by simp
  with w c i n show ?thesis
    by simp
qed

subsection \<open>Delayed observation by disruptors\<close>

lemma emap_Inr_eq_map:
  "emap f xs = Inr ys \<Longrightarrow> (\<And>x y. x \<in> set xs \<Longrightarrow> f x = Inr y \<Longrightarrow> y = g x) \<Longrightarrow> ys = map g xs"
proof (induction xs arbitrary: ys)
  case Nil
  then show ?case by simp
next
  case (Cons x xs)
  from Cons.prems(1) obtain y ys' where y: "f x = Inr y" "emap f xs = Inr ys'" "ys = y # ys'"
    by (auto split: sum.splits)
  from Cons.IH [OF y(2)] Cons.prems(2) have "ys' = map g xs" by simp
  with y Cons.prems(2) [of x y] show ?case by simp
qed

lemma observe_cell_view:
  "observe_cell ids adj offset col cell = Inr c \<Longrightarrow>
   c = (case cell of None \<Rightarrow> None
        | Some em \<Rightarrow> if visible ids adj offset col em then Some em else None)"
  by (auto simp: observe_cell_def visible_def ebind_Inr_iff split: option.splits)

lemma observe_row_view:
  "emap (observe_cell ids adj offset col) row = Inr row' \<Longrightarrow>
   row' = filter_row ids adj offset col row"
  unfolding filter_row_def
  by (erule emap_Inr_eq_map) (rule observe_cell_view)

lemma map_nth_upt_take:
  "n \<le> length xs \<Longrightarrow> map (\<lambda>i. f (xs ! i)) [0..<n] = map f (take n xs)"
  by (rule nth_equalityI) simp_all

lemma observe_rows_view:
  assumes "emap (\<lambda>i. ebind (nth_err S (i + b)) (emap (observe_cell ids adj offset col)))
             [0..<n] = Inr rows"
  shows "rows = map (filter_row ids adj offset col) (take n (drop b S)) \<and> (0 < n \<longrightarrow> n + b \<le> length S)"
proof -
  note u = emap_upt [OF assms]
  have 1: "i + b < length S \<and> rows ! i = filter_row ids adj offset col (S ! (i + b))"
    if "i < n" for i
    using u that by (auto simp: ebind_Inr_iff nth_err_Inr_iff dest: observe_row_view)
  then have len: "n + b \<le> length S" if "0 < n"
    using that 1 [of "n - 1"] by simp
  have "rows = map (\<lambda>i. filter_row ids adj offset col (drop b S ! i)) [0..<n]"
  proof (rule nth_equalityI)
    show "length rows = length (map (\<lambda>i. filter_row ids adj offset col (drop b S ! i)) [0..<n])"
      using u by simp
  next
    fix i assume "i < length rows"
    with u have i: "i < n" by simp
    from 1 [OF i] have "drop b S ! i = S ! (i + b)"
      by (simp add: add.commute)
    with 1 [OF i] i
    show "rows ! i = map (\<lambda>i. filter_row ids adj offset col (drop b S ! i)) [0..<n] ! i"
      by simp
  qed
  also have "\<dots> = map (filter_row ids adj offset col) (take n (drop b S))"
  proof (cases "0 < n")
    case True
    with len show ?thesis by (intro map_nth_upt_take) simp
  next
    case False
    then show ?thesis by simp
  qed
  finally show ?thesis using len by simp
qed

lemma observe_view:
  assumes "observe e k S = Inr V"
  shows "V = view e k S"
proof -
  let ?nc = "length (coordinator e)"
  let ?col = "k + numCommsPlatforms e"
  from assms obtain crows drows where
    c: "emap (\<lambda>cIndex. ebind (nth_err S cIndex)
                     (emap (observe_cell (commsPlatformIDs e) (adjMatrix e) 0 ?col)))
          [0..<?nc] = Inr crows" and
    d: "emap (\<lambda>dIndex. ebind (nth_err S (dIndex + ?nc))
                     (emap (observe_cell (disruptorPlatformIDs e) (adjMatrix e)
                              (numCommsPlatforms e) ?col)))
          [0..<numDisruptorPlatforms e] = Inr drows" and
    V: "V = crows @ drows @ drop (?nc + numDisruptorPlatforms e) S"
    by (auto simp: observe_def Let_def ebind_Inr_iff)
  from observe_rows_view [of S 0, simplified, OF c] observe_rows_view [OF d] V
  show ?thesis
    by (simp add: view_def Let_def)
qed

lemma getDisruptions_env:
  "getDisruptions d r = Inr (toks, d') \<Longrightarrow> env d' = env d"
  by (auto simp: getDisruptions_def Let_def split: if_splits sum.splits)

lemma collect_disruptions_env:
  "collect_disruptions nc rnd i dps g = Inr (dps', g') \<Longrightarrow>
   length dps' = length dps \<and> (\<forall>k<length dps. env (dps' ! k) = env (dps ! k))"
proof (induction nc rnd i dps g arbitrary: dps' g' rule: collect_disruptions.induct)
  case (1 nc rnd pIndex theData)
  then show ?case by simp
next
  case (2 nc rnd pIndex p ps theData)
  from "2.prems" obtain tokens p' ps' where
    g: "getDisruptions p (rnd pIndex) = Inr (tokens, p')" and
    lt: "pIndex + nc < length theData" and
    r: "collect_disruptions nc rnd (pIndex + 1) ps (theData[pIndex + nc := tokens]) = Inr (ps', g')"
    and d: "dps' = p' # ps'"
    by (auto split: sum.splits if_splits)
  from "2.IH" [OF g _ _ r] lt
  have "length ps' = length ps \<and> (\<forall>k<length ps. env (ps' ! k) = env (ps ! k))"
    by simp
  with d getDisruptions_env [OF g] show ?case
    by (auto simp: nth_Cons split: nat.splits)
qed

lemma step_coordinators_length:
  "step_coordinators i cs ps g = Inr (cs', ps', g') \<Longrightarrow> length cs' = length cs"
proof (induction i cs ps g arbitrary: cs' ps' g' rule: step_coordinators.induct)
  case (1 index ps theData)
  then show ?case by simp
next
  case (2 index c cs ps theData)
  from "2.prems" obtain txPackets ps1 c1 cs1 where
    s: "CommsCoordinator_step c ps = Inr (txPackets, ps1, c1)" and
    lt: "index < length theData" and
    r: "step_coordinators (index + 1) cs ps1 (theData[index := txPackets]) = Inr (cs1, ps', g')"
    and d: "cs' = c1 # cs1"
    by (auto split: sum.splits if_splits)
  from "2.IH" [OF s _ _ _ r] lt d show ?case by simp
qed

lemma view_cong:
  "static_eq e e' \<Longrightarrow> length (coordinator e') = length (coordinator e) \<Longrightarrow>
   view e' k S = view e k S"
  by (simp add: view_def static_eq_def)

lemma qget_Inr: "qget q = Inr (x, q') \<Longrightarrow> items q = x # items q'"
  by (auto simp: qget_def split: list.splits)

lemma step_view:
  assumes "Environment_step e dT rnd = Inr e'"
  shows "static_eq e e' \<and> length (coordinator e') = length (coordinator e) \<and>
    (\<exists>theEnv q. items (dataQueue e) = theEnv # q \<and> items (dataQueue e') = q @ [data e'] \<and>
       (\<forall>k<length (disruptorPlatforms e').
          env (disruptorPlatforms e' ! k) = Some (view e' k theEnv)))"
proof -
  from Environment_step_Inr [OF assms] obtain dps e1 e3 cs ps theData theEnv q dps1 dps2
    theData2 tx out cps' rx tx' rx' where
    u: "updatePlatformConnectivity
      (e\<lparr>commsPlatforms := map (Platform_step dT) (commsPlatforms e),
         disruptorPlatforms := dps\<rparr>) = Inr e1" and
    sc: "step_coordinators 0 (coordinator e1) (commsPlatforms e1) (data e1) = Inr (cs, ps, theData)" and
    e3: "e3 = e1\<lparr>elapsedTime_e := elapsedTime_e e1 + dT, coordinator := cs,
            commsPlatforms := ps, data := theData\<rparr>" and
    g: "qget (dataQueue e1) = Inr (theEnv, q)" and
    ob: "emap (\<lambda>(disruptorIndex, disruptor).
           ebind (observe e3 disruptorIndex theEnv)
             (\<lambda>theEnvTemp. Inr (disruptor\<lparr>env := Some theEnvTemp\<rparr>)))
      (enumerate 0 (disruptorPlatforms e1)) = Inr dps1" and
    cd: "collect_disruptions (length cs) rnd 0 dps1 theData = Inr (dps2, theData2)" and
    e': "e' = e3\<lparr>disruptorPlatforms := dps2, data := stamp_grid (elapsedTime_e e3) theData2,
            dataQueue := qput q (copyEnv (stamp_grid (elapsedTime_e e3) theData2)),
            commsPlatforms := cps', trafficTx := tx', trafficRx := rx'\<rparr>"
    by blast
  note fr = updatePlatformConnectivity_frame [OF u]
  from fr e3 e' have se: "static_eq e e'" "static_eq e3 e'"
    by (simp_all add: static_eq_def)
  from step_coordinators_length [OF sc] fr e3 e'
  have lc: "length (coordinator e') = length (coordinator e)"
    "length (coordinator e') = length (coordinator e3)"
    by simp_all
  from qget_Inr [OF g] fr have q1: "items (dataQueue e) = theEnv # items q" by simp
  have q2: "items (dataQueue e') = items q @ [data e']"
    by (simp add: e' qput_def)
  note ce = collect_disruptions_env [OF cd]
  have l1: "length dps1 = length (disruptorPlatforms e1)"
    using emap_Inr_length [OF ob] by simp
  have "env (disruptorPlatforms e' ! k) = Some (view e' k theEnv)"
    if "k < length (disruptorPlatforms e')" for k
  proof -
    from that ce have k: "k < length dps1" "env (disruptorPlatforms e' ! k) = env (dps1 ! k)"
      by (simp_all add: e')
    from emap_Inr_nth [OF ob, of k] k(1) l1 obtain V where
      V: "observe e3 k theEnv = Inr V" "dps1 ! k = (disruptorPlatforms e1 ! k)\<lparr>env := Some V\<rparr>"
      by (auto simp: nth_enumerate_eq ebind_Inr_iff)
    from observe_view [OF V(1)] view_cong [OF se(2) lc(2)] have "V = view e' k theEnv"
      by simp
    with k V show ?thesis by simp
  qed
  with se(1) lc(1) q1 q2 show ?thesis by blast
qed

lemma run_append:
  "run e h (as @ bs) =
     (case run e h as of Inl x \<Rightarrow> Inl x | Inr (e1, h1) \<Rightarrow> run e1 h1 bs)"
proof (induction as arbitrary: e h)
  case Nil
  show ?case by simp
next
  case (Cons a as)
  show ?case by (cases a) (simp_all add: Cons.IH split: sum.splits)
qed

lemma run_queue:
  assumes "run e h acts = Inr (e', h')" "items (dataQueue e) = drop (length h) (R @ h)" "R \<noteq> []"
  shows "items (dataQueue e') = drop (length h') (R @ h')"
  using assms(1,2)
proof (induction acts arbitrary: e h)
  case Nil
  then show ?case by simp
next
  case (Cons a acts)
  show ?case
  proof (cases a)
    case (TxData k x ds)
    with Cons.prems Cons.IH [of "user_txData e k x ds" h] show ?thesis
      by (simp add: user_txData_def)
  next
    case (RxData k)
    with Cons.prems Cons.IH [of "snd (user_rxData e k)" h] show ?thesis
      by (simp add: user_rxData_def split: prod.splits if_splits)
  next
    case (SetAdjMatrix m)
    with Cons.prems Cons.IH [of "e\<lparr>adjMatrix := m\<rparr>" h] show ?thesis by simp
  next
    case (Step dT rnd)
    with Cons.prems obtain e1 where s: "Environment_step e dT rnd = Inr e1"
      and r: "run e1 (h @ [data e1]) acts = Inr (e', h')"
      by (auto split: sum.splits)
    from step_view [OF s] obtain theEnv q where
      q: "items (dataQueue e) = theEnv # q" "items (dataQueue e1) = q @ [data e1]"
      by blast
    from q(1) Cons.prems(2) have "q = drop (Suc (length h)) (R @ h)"
      by (metis drop_Suc list.sel(3) tl_drop)
    with q(2) assms(3) have "items (dataQueue e1) = drop (length (h @ [data e1])) (R @ h @ [data e1])"
      by (cases R) simp_all
    from Cons.IH [OF r this] show ?thesis .
  qed
qed

text \<open>
  Claim C2 against the code. The claim says that a disruptor's own past emissions are
  never filtered out of its view, and the comment on the second loop of \<^verbatim>\<open>step\<close> says that
  it removes the emissions of \<^emph>\<open>other\<close> disruptors that this disruptor cannot observe. The
  loop makes no such difference: it tests \<^verbatim>\<open>adjMatrix[s + C, k + C]\<close> for the source \<open>s\<close> of
  every cell, also when \<open>s = k\<close>, and nothing sets the diagonal of the matrix. Here are
  one comms platform and one disruptor (id 9) that is adjacent to the comms platform
  while \<^verbatim>\<open>adjMatrix[1, 1]\<close> is \<^verbatim>\<open>False\<close>, one bin, delay 1. In step 1 the disruptor puts a
  token into the bin. The view it is given in step 2 is made from the grid of step 1,
  and its own token has been removed from it.
\<close>

theorem own_emission_filtered:
  "Environment_init [[True, True], [True, False]]
     [new_platform 1 100 True] [new_disruptor 9 1 1 10] 1 1 ''rr'' 0 = Inr (demo_jam False) \<and>
   (case run (demo_jam False) [] [Step (1/4) (\<lambda>k. 0), Step (1/4) (\<lambda>k. 0)] of
      Inl err \<Rightarrow> False
    | Inr (e, h) \<Rightarrow>
        grid_sources (h ! 0) = [[None], [Some 9]] \<and>
        platform_id (disruptorPlatforms e ! 0) = 9 \<and>
        map_option grid_sources (env (disruptorPlatforms e ! 0)) = Some [[None], [None]])"
  by code_simp

theorem own_emission_filtered_witness:
  "\<not> isl (run (demo_jam False) [] [Step (1/4) (\<lambda>k. 0), Step (1/4) (\<lambda>k. 0)]) \<and>
   grid_sources (snd (projr (run (demo_jam False) [] [Step (1/4) (\<lambda>k. 0), Step (1/4) (\<lambda>k. 0)])) ! 0)
     = [[None], [Some 9]] \<and>
   map_option grid_sources (env (disruptorPlatforms
     (fst (projr (run (demo_jam False) [] [Step (1/4) (\<lambda>k. 0), Step (1/4) (\<lambda>k. 0)]))) ! 0))
     = Some [[None], [None]]"
  using own_emission_filtered
  by (cases "run (demo_jam False) [] [Step (1/4) (\<lambda>k. 0), Step (1/4) (\<lambda>k. 0)]") auto

text \<open>
  What the step does give to a disruptor. Take an environment as the constructor
  returns it, with delay \<open>dl\<close>, and a run that ends with a step, the \<open>t\<close>-th (\<open>t\<close> is the
  length of the history \<open>h\<close>). The view that step assigns to disruptor \<open>k\<close> is \<open>view e k S\<close>,
  where \<open>S\<close> is the grid as it stood at the end of step \<open>t - dl\<close>, or the empty grid when
  \<open>t \<le> dl\<close>. \<open>view\<close> keeps the shape of \<open>S\<close> and its emission objects and replaces by
  \<^verbatim>\<open>None\<close> the cells whose source is not adjacent to column \<open>C + k\<close> of the current adjacency
  matrix, the disruptor's own cells among them. Emissions are values here, so the
  theorem speaks of the contents of the view and not of the identity of its lists.
\<close>

theorem delayed_observation:
  assumes "Environment_init adj cps dps B dl m w = Inr e0"
    and "run e0 [] (acts @ [Step dT rnd]) = Inr (e, h)"
    and "k < length (disruptorPlatforms e)"
  shows "env (disruptorPlatforms e ! k) =
     Some (view e k (if length h \<le> nat dl then empty_grid (length dps) B
                     else h ! (length h - 1 - nat dl)))"
proof -
  let ?R = "replicate (nat dl) (empty_grid (length dps) B :: ('a, 'b) grid)"
  note f = init_fields [OF assms(1)]
  from assms(2) obtain e1 h1 where
    r1: "run e0 [] acts = Inr (e1, h1)" and
    s: "Environment_step e1 dT rnd = Inr e" and h: "h = h1 @ [data e]"
    by (auto simp: run_append split: sum.splits)
  from f have R: "?R \<noteq> []" "items (dataQueue e0) = drop (length ([] :: ('a, 'b) grid list)) (?R @ [])"
    by simp_all
  from run_queue [OF r1 R(2) R(1)] have q1: "items (dataQueue e1) = drop (length h1) (?R @ h1)" .
  from step_view [OF s] assms(3) obtain theEnv q where
    q: "items (dataQueue e1) = theEnv # q" and
    v: "env (disruptorPlatforms e ! k) = Some (view e k theEnv)"
    by blast
  from R(1) have lt: "length h1 < length (?R @ h1)" by simp
  from q q1 have "theEnv = hd (drop (length h1) (?R @ h1))" by (metis list.sel(1))
  also from lt have "\<dots> = (?R @ h1) ! length h1"
    by (rule hd_drop_conv_nth)
  finally have t: "theEnv = (?R @ h1) ! length h1" .
  have "theEnv = (if length h \<le> nat dl then empty_grid (length dps) B
                     else h ! (length h - 1 - nat dl))"
  proof (cases "length h1 < nat dl")
    case True
    with t h show ?thesis by (simp add: nth_append)
  next
    case False
    from f have "0 < nat dl" by simp
    with False have "length h1 - nat dl < length h1" by arith
    with t h False show ?thesis by (simp add: nth_append)
  qed
  with v show ?thesis by simp
qed

theorem delayed_observation_witness:
  "Environment_init [[True, True], [True, True]]
     [new_platform 1 100 True] [new_disruptor 9 1 1 10] 1 1 ''rr'' 0 = Inr (demo_jam True) \<and>
   \<not> isl (run (demo_jam True) [] ([Step (1/4) (\<lambda>k. 0)] @ [Step (1/4) (\<lambda>k. 0)])) \<and>
   length (disruptorPlatforms
     (fst (projr (run (demo_jam True) [] ([Step (1/4) (\<lambda>k. 0)] @ [Step (1/4) (\<lambda>k. 0)]))))) = 1 \<and>
   length (snd (projr (run (demo_jam True) [] ([Step (1/4) (\<lambda>k. 0)] @ [Step (1/4) (\<lambda>k. 0)])))) = 2 \<and>
   env (disruptorPlatforms
     (fst (projr (run (demo_jam True) [] ([Step (1/4) (\<lambda>k. 0)] @ [Step (1/4) (\<lambda>k. 0)]))))  ! 0) =
     Some (view (fst (projr (run (demo_jam True) [] ([Step (1/4) (\<lambda>k. 0)] @ [Step (1/4) (\<lambda>k. 0)])))) 0
            (snd (projr (run (demo_jam True) [] ([Step (1/4) (\<lambda>k. 0)] @ [Step (1/4) (\<lambda>k. 0)]))) ! 0)) \<and>
   map_option grid_sources (env (disruptorPlatforms
     (fst (projr (run (demo_jam True) [] ([Step (1/4) (\<lambda>k. 0)] @ [Step (1/4) (\<lambda>k. 0)])))) ! 0))
     = Some [[None], [Some 9]]"
proof -
  let ?r = "run (demo_jam True) [] ([Step (1/4) (\<lambda>k. 0)] @ [Step (1/4) (\<lambda>k. 0)])"
  have i: "Environment_init [[True, True], [True, True]]
     [new_platform 1 100 True] [new_disruptor 9 1 1 10] 1 1 ''rr'' 0 = Inr (demo_jam True)"
    by code_simp
  have c: "\<not> isl ?r" "length (disruptorPlatforms (fst (projr ?r))) = 1"
    "length (snd (projr ?r)) = 2"
    "map_option grid_sources (env (disruptorPlatforms (fst (projr ?r)) ! 0)) = Some [[None], [Some 9]]"
    by code_simp+
  from c(1) have r: "?r = Inr (fst (projr ?r), snd (projr ?r))"
    by simp
  have k: "0 < length (disruptorPlatforms (fst (projr ?r)))"
    unfolding c(2) by simp
  have "env (disruptorPlatforms (fst (projr ?r)) ! 0) =
     Some (view (fst (projr ?r)) 0 (snd (projr ?r) ! 0))"
    using delayed_observation [OF i r k] unfolding c(3) by simp
  with i c show ?thesis by simp
qed

end
